theory Spec2Isabelle
  imports Main "HOL-Library.AList" "HOL-Library.Sublist" "HOL-Library.List_Lexorder"
begin

section \<open>Data model\<close>

text \<open>
  A Python \<open>str\<close> is a sequence of code points; a symbol is its code point (what
  \<open>ord\<close> returns), so \<open>ord\<close> and \<open>chr\<close> are the identity of the model. Counters only
  ever grow from 0, so they are natural numbers; the order \<open>k\<close> and the trajectory length
  come from \<open>argparse\<close> with \<open>type=int\<close> and are integers.
\<close>

type_synonym symbol = nat
type_synonym pystr = "symbol list"

definition str :: "string \<Rightarrow> pystr" where
  "str s = map of_char s"

datatype error = KeyError | IndexError | AttributeError | TypeError

text \<open>Python slicing \<open>xs[a:b]\<close>: a negative bound counts from the end, and every bound is
  clamped to the length.\<close>

definition slice_bound :: "int \<Rightarrow> nat \<Rightarrow> nat" where
  "slice_bound i n = (if i < 0 then nat (max (i + int n) 0) else min (nat i) n)"

definition py_slice :: "'a list \<Rightarrow> int \<Rightarrow> int \<Rightarrow> 'a list" where
  "py_slice xs a b =
     (let lo = slice_bound a (length xs); hi = slice_bound b (length xs)
      in take (hi - lo) (drop lo xs))"

text \<open>A dictionary keeps its keys in insertion order: an association list, written with
  \<open>AList.update\<close> (replace in place, or append a new key) and read with \<open>map_of\<close>.\<close>

subsection \<open>Node\<close>

datatype node = Node (letter: "symbol option")
                     (neighbours: "(symbol \<times> node) list")
                     (letters_count: "(symbol \<times> nat) list")

text \<open>\<open>add_son\<close> mutates the node and returns the son: the model returns the node after the
  call together with the son. \<open>_letters_count[letter] += 1\<close> raises \<open>KeyError\<close> on a
  missing key.\<close>

definition add_son :: "node \<Rightarrow> symbol \<Rightarrow> error + (node \<times> node)" where
  "add_son nd l =
     (let absent = (map_of (neighbours nd) l = None);
          nb = (if absent then AList.update l (Node (Some l) [] []) (neighbours nd)
                else neighbours nd);
          lc = (if absent then AList.update l 0 (letters_count nd) else letters_count nd)
      in case map_of lc l of
           None \<Rightarrow> Inl KeyError
         | Some c \<Rightarrow>
             (case map_of nb l of
                None \<Rightarrow> Inl KeyError
              | Some son \<Rightarrow> Inr (Node (letter nd) nb (AList.update l (c + 1) lc), son)))"

definition get_son :: "node \<Rightarrow> symbol \<Rightarrow> node option" where
  "get_son nd l = map_of (neighbours nd) l"

definition get_sons :: "node \<Rightarrow> node list" where
  "get_sons nd = map snd (neighbours nd)"

definition get_letter_count :: "node \<Rightarrow> symbol \<Rightarrow> nat" where
  "get_letter_count nd l = (case map_of (letters_count nd) l of None \<Rightarrow> 0 | Some c \<Rightarrow> c)"

definition get_letters_count :: "node \<Rightarrow> (symbol \<times> nat) list" where
  "get_letters_count nd = letters_count nd"

subsection \<open>Window extraction\<close>

text \<open>Both constructors cut the window that starts at \<open>left_idx\<close> with the same code
  (the tree with \<open>k + 1\<close> in place of \<open>k\<close>).\<close>

definition window :: "pystr \<Rightarrow> int \<Rightarrow> nat \<Rightarrow> pystr" where
  "window txt k left_idx =
     (let right_idx = int left_idx + k; text_len = int (length txt)
      in if right_idx < text_len then py_slice txt (int left_idx) right_idx
         else py_slice txt (int left_idx) text_len @ py_slice txt 0 (right_idx mod text_len))"

subsection \<open>MarkovModelTree\<close>

record tree =
  tree_k :: int
  tree_root :: node

text \<open>The loop \<open>for ch in k_gram: node = node.add_son(ch)\<close> walks down and mutates every
  node on the way; the son returned by \<open>add_son\<close> is the object stored in the parent's
  dictionary, so the changed son is written back there.\<close>

fun add_word :: "node \<Rightarrow> pystr \<Rightarrow> error + node" where
  "add_word nd [] = Inr nd"
| "add_word nd (ch # rest) =
     (case add_son nd ch of
        Inl e \<Rightarrow> Inl e
      | Inr (nd', son) \<Rightarrow>
          (case add_word son rest of
             Inl e \<Rightarrow> Inl e
           | Inr son' \<Rightarrow>
               Inr (Node (letter nd') (AList.update ch son' (neighbours nd'))
                      (letters_count nd'))))"

fun tree_build :: "pystr \<Rightarrow> int \<Rightarrow> nat list \<Rightarrow> node \<Rightarrow> error + node" where
  "tree_build txt k [] root = Inr root"
| "tree_build txt k (left_idx # idxs) root =
     (case add_word root (window txt k left_idx) of
        Inl e \<Rightarrow> Inl e
      | Inr root' \<Rightarrow> tree_build txt k idxs root')"

definition MarkovModelTree :: "pystr \<Rightarrow> int \<Rightarrow> error + tree" where
  "MarkovModelTree txt k =
     (case tree_build txt (k + 1) [0..<length txt] (Node None [] []) of
        Inl e \<Rightarrow> Inl e
      | Inr r \<Rightarrow> Inr \<lparr>tree_k = k, tree_root = r\<rparr>)"

text \<open>\<open>for ch in k_gram: node = node.get_son(ch)\<close>: \<open>get_son\<close> returns \<open>None\<close> for a missing
  son, and the next use of that \<open>None\<close> (the next \<open>get_son\<close>, or the read after the loop)
  raises \<open>AttributeError\<close>.\<close>

fun descend :: "node \<Rightarrow> pystr \<Rightarrow> error + node" where
  "descend nd [] = Inr nd"
| "descend nd (ch # rest) =
     (case get_son nd ch of None \<Rightarrow> Inl AttributeError | Some son \<Rightarrow> descend son rest)"

definition tree_k_freq :: "tree \<Rightarrow> pystr \<Rightarrow> error + nat" where
  "tree_k_freq t k_gram =
     (case descend (tree_root t) (butlast k_gram) of
        Inl e \<Rightarrow> Inl e
      | Inr nd \<Rightarrow> if k_gram = [] then Inl IndexError
                  else Inr (get_letter_count nd (last k_gram)))"

definition tree_k_follow_freq :: "tree \<Rightarrow> pystr \<Rightarrow> symbol \<Rightarrow> error + nat" where
  "tree_k_follow_freq t k_gram l =
     (case descend (tree_root t) k_gram of
        Inl e \<Rightarrow> Inl e
      | Inr nd \<Rightarrow> Inr (get_letter_count nd l))"

text \<open>\<open>stdrandom.discrete\<close> is not part of the repository: the sampler is a parameter that
  maps the weights to an index. Indexing the key list out of range raises \<open>IndexError\<close>.\<close>

definition tree_next_char :: "(nat list \<Rightarrow> nat) \<Rightarrow> tree \<Rightarrow> pystr \<Rightarrow> error + symbol" where
  "tree_next_char discrete t k_gram =
     (case descend (tree_root t) k_gram of
        Inl e \<Rightarrow> Inl e
      | Inr nd \<Rightarrow>
          (let idx = discrete (map snd (get_letters_count nd));
               keys = map fst (get_letters_count nd)
           in if idx < length keys then Inr (keys ! idx) else Inl IndexError))"

subsection \<open>MarkovModelTables\<close>

record tables =
  tables_k :: int
  k_gram_count :: "(pystr \<times> nat) list"
  k_gram_letter :: "(pystr \<times> nat list) list"

definition tables_step :: "pystr \<Rightarrow> int \<Rightarrow> tables \<Rightarrow> nat \<Rightarrow> error + tables" where
  "tables_step txt k T left_idx =
     (let right_idx = int left_idx + k;
          text_len = int (length txt);
          k_gram = window txt k left_idx;
          cnt = (if map_of (k_gram_count T) k_gram = None
                 then AList.update k_gram 0 (k_gram_count T) else k_gram_count T);
          ltr = (if map_of (k_gram_letter T) k_gram = None
                 then AList.update k_gram (replicate 128 0) (k_gram_letter T)
                 else k_gram_letter T)
      in case map_of cnt k_gram of
           None \<Rightarrow> Inl KeyError
         | Some c \<Rightarrow>
             (case map_of ltr k_gram of
                None \<Rightarrow> Inl KeyError
              | Some row \<Rightarrow>
                  (let i = txt ! nat (right_idx mod text_len)
                   in if i < length row
                      then Inr (T\<lparr>k_gram_count := AList.update k_gram (c + 1) cnt,
                                  k_gram_letter := AList.update k_gram (row[i := row ! i + 1]) ltr\<rparr>)
                      else Inl IndexError)))"

fun tables_build :: "pystr \<Rightarrow> int \<Rightarrow> nat list \<Rightarrow> tables \<Rightarrow> error + tables" where
  "tables_build txt k [] T = Inr T"
| "tables_build txt k (left_idx # idxs) T =
     (case tables_step txt k T left_idx of
        Inl e \<Rightarrow> Inl e
      | Inr T' \<Rightarrow> tables_build txt k idxs T')"

definition MarkovModelTables :: "pystr \<Rightarrow> int \<Rightarrow> error + tables" where
  "MarkovModelTables txt k =
     tables_build txt k [0..<length txt]
       \<lparr>tables_k = k, k_gram_count = [], k_gram_letter = []\<rparr>"

definition tables_k_freq :: "tables \<Rightarrow> pystr \<Rightarrow> error + nat" where
  "tables_k_freq T k_gram =
     (case map_of (k_gram_count T) k_gram of None \<Rightarrow> Inl KeyError | Some c \<Rightarrow> Inr c)"

definition tables_k_follow_freq :: "tables \<Rightarrow> pystr \<Rightarrow> symbol \<Rightarrow> error + nat" where
  "tables_k_follow_freq T k_gram l =
     (case map_of (k_gram_letter T) k_gram of
        None \<Rightarrow> Inl KeyError
      | Some row \<Rightarrow> if l < length row then Inr (row ! l) else Inl IndexError)"

subsection \<open>The generation loop of the main program\<close>

text \<open>The sampler is called once per iteration; its randomness is the iteration number
  it is given here.\<close>

fun gen_loop :: "(nat \<Rightarrow> nat list \<Rightarrow> nat) \<Rightarrow> tree \<Rightarrow> nat \<Rightarrow> nat \<Rightarrow> pystr \<Rightarrow> pystr \<Rightarrow> error + pystr"
  where
  "gen_loop discrete mm i 0 state tj = Inr tj"
| "gen_loop discrete mm i (Suc n) state tj =
     (case tree_next_char (discrete i) mm state of
        Inl e \<Rightarrow> Inl e
      | Inr c \<Rightarrow> gen_loop discrete mm (Suc i) n (py_slice state 1 (int (length state)) @ [c])
                   (tj @ [c]))"

definition generate :: "(nat \<Rightarrow> nat list \<Rightarrow> nat) \<Rightarrow> tree \<Rightarrow> pystr \<Rightarrow> int \<Rightarrow> int \<Rightarrow> error + pystr"
  where
  "generate discrete mm txt order' trajectory =
     (let state = py_slice txt 0 order'
      in gen_loop discrete mm 0 (nat (trajectory - order')) state state)"

text \<open>The main program after the corpus is read: both models are built, then the
  trajectory is generated from the tree and printed. An exception ends the run before
  \<open>print\<close>, so the result is either the error or the printed trajectory.\<close>

definition main :: "(nat \<Rightarrow> nat list \<Rightarrow> nat) \<Rightarrow> int \<Rightarrow> int \<Rightarrow> pystr \<Rightarrow> error + pystr" where
  "main discrete order' trajectory txt =
     (case MarkovModelTree txt order' of
        Inl e \<Rightarrow> Inl e
      | Inr mm \<Rightarrow>
          (case MarkovModelTables txt order' of
             Inl e \<Rightarrow> Inl e
           | Inr mmt \<Rightarrow> generate discrete mm txt order' trajectory))"

subsection \<open>to_string of the tree\<close>

text \<open>\<open>str(v)\<close> for a count: its decimal digits.\<close>

function str_nat :: "nat \<Rightarrow> pystr" where
  "str_nat n = (if n < 10 then [48 + n] else str_nat (n div 10) @ [48 + n mod 10])"
  by pat_completeness auto
termination
  by (relation "measure id") auto

declare str_nat.simps [simp del]

text \<open>\<open>sep.join(xs)\<close>, and \<open>s.split(sep)\<close> for a separator of one symbol (the source
  splits at the newline, code point 10).\<close>

fun join :: "pystr \<Rightarrow> pystr list \<Rightarrow> pystr" where
  "join sep [] = []"
| "join sep [x] = x"
| "join sep (x # y # ys) = x @ sep @ join sep (y # ys)"

fun split_on :: "symbol \<Rightarrow> pystr \<Rightarrow> pystr list" where
  "split_on sep [] = [[]]"
| "split_on sep (c # cs) =
     (if c = sep then [] # split_on sep cs
      else (case split_on sep cs of [] \<Rightarrow> [[c]] | w # ws \<Rightarrow> (c # w) # ws))"

text \<open>The text of one line, \<open>f"{path}: {' '.join([f'{k} {v}' for k, v in items])}"\<close>;
  58, 32 and 10 are the colon, the space and the newline.\<close>

definition format_entry :: "pystr \<Rightarrow> (symbol \<times> nat) list \<Rightarrow> pystr" where
  "format_entry path items =
     path @ [58, 32] @ join [32] (map (\<lambda>(k, v). [k] @ [32] @ str_nat v) items)"

text \<open>\<open>_stringify\<close> appends to the shared \<open>StringContainer\<close>: the model passes the string
  and returns it extended. The list comprehension visits \<open>get_sons\<close>, the values of
  \<open>_neighbours\<close>, in order; \<open>path + n._letter\<close> raises \<open>TypeError\<close> for a letter that is
  \<open>None\<close>.\<close>

fun stringify :: "int \<Rightarrow> node \<Rightarrow> pystr \<Rightarrow> pystr \<Rightarrow> error + pystr"
  and stringify_sons :: "int \<Rightarrow> (symbol \<times> node) list \<Rightarrow> pystr \<Rightarrow> pystr \<Rightarrow> error + pystr"
  where
  "stringify level (Node l nb lc) path result =
     (if level = 0 then Inr (result @ format_entry path lc @ [10])
      else stringify_sons (level - 1) nb path result)"
| "stringify_sons level [] path result = Inr result"
| "stringify_sons level ((c, n) # sons) path result =
     (case letter n of
        None \<Rightarrow> Inl TypeError
      | Some l' \<Rightarrow>
          (case stringify level n (path @ [l']) result of
             Inl e \<Rightarrow> Inl e
           | Inr result' \<Rightarrow> stringify_sons level sons path result'))"

definition tree_to_string :: "tree \<Rightarrow> error + pystr" where
  "tree_to_string t =
     (case stringify (tree_k t) (tree_root t) [] [] of
        Inl e \<Rightarrow> Inl e
      | Inr result \<Rightarrow> Inr (join [10] (sort (split_on 10 result))))"

section \<open>Abstract view of the two models\<close>

text \<open>These definitions are not code of the program: they say what a built model
  stands for, and the claims are stated with them.

  \<open>conts p ws\<close> are the continuations of the prefix \<open>p\<close> among the words \<open>ws\<close>;
  \<open>rep nd ws\<close> says that the node \<open>nd\<close> is the prefix tree of the inserted words \<open>ws\<close>:
  both dictionaries have the same keys in the same order, the count of a letter is the
  number of words that start with it, and each son stands for the continuations.\<close>

definition conts :: "pystr \<Rightarrow> pystr list \<Rightarrow> pystr list" where
  "conts p ws = map (drop (length p)) (filter (prefix p) ws)"

fun rep :: "node \<Rightarrow> pystr list \<Rightarrow> bool" where
  "rep (Node l nb lc) ws =
     (map fst lc = map fst nb \<and> distinct (map fst nb) \<and>
      (\<forall>c. map_of lc c = (if conts [c] ws = [] then None else Some (length (conts [c] ws)))) \<and>
      (\<forall>p \<in> set nb. letter (snd p) = Some (fst p) \<and> rep (snd p) (conts [fst p] ws)))"

text \<open>The words the tree constructor inserts, the symbol the tables constructor reads
  as the successor of the window at \<open>left_idx\<close> (\<open>text[right_idx % text_len]\<close>), the
  indices among \<open>js\<close> whose window is \<open>g\<close>, and what the tables hold after the loop has
  run over the indices \<open>js\<close>.\<close>

definition tree_windows :: "pystr \<Rightarrow> int \<Rightarrow> pystr list" where
  "tree_windows txt k = map (window txt (k + 1)) [0..<length txt]"

definition successor :: "pystr \<Rightarrow> int \<Rightarrow> nat \<Rightarrow> symbol" where
  "successor txt k left_idx = txt ! nat ((int left_idx + k) mod int (length txt))"

definition occ :: "pystr \<Rightarrow> int \<Rightarrow> pystr \<Rightarrow> nat list \<Rightarrow> nat list" where
  "occ txt k g js = filter (\<lambda>j. window txt k j = g) js"

definition tab_rep :: "pystr \<Rightarrow> int \<Rightarrow> tables \<Rightarrow> nat list \<Rightarrow> bool" where
  "tab_rep txt k T js \<longleftrightarrow>
     (\<forall>g. map_of (k_gram_count T) g =
          (if occ txt k g js = [] then None else Some (length (occ txt k g js)))) \<and>
     (\<forall>g. (map_of (k_gram_letter T) g = None) = (occ txt k g js = [])) \<and>
     (\<forall>g row. map_of (k_gram_letter T) g = Some row \<longrightarrow>
          length row = 128 \<and>
          (\<forall>s<128. row ! s = length (filter (\<lambda>j. successor txt k j = s) (occ txt k g js))))"

text \<open>The k-grams of a corpus, and whether a symbol follows a k-gram somewhere in it
  (cyclically), as the constructors read them off.\<close>

definition k_grams :: "pystr \<Rightarrow> int \<Rightarrow> pystr list" where
  "k_grams txt k = map (window txt k) [0..<length txt]"


definition ascii :: "pystr \<Rightarrow> bool" where
  "ascii txt = list_all (\<lambda>c. c < 128) txt"

text \<open>Build a model from a corpus and query it: \<open>MarkovModelTree(text, k).k_freq(g)\<close>
  and its siblings.\<close>

definition tree_model_k_freq :: "pystr \<Rightarrow> int \<Rightarrow> pystr \<Rightarrow> error + nat" where
  "tree_model_k_freq txt k g =
     (case MarkovModelTree txt k of Inl e \<Rightarrow> Inl e | Inr t \<Rightarrow> tree_k_freq t g)"

definition tree_model_k_follow_freq :: "pystr \<Rightarrow> int \<Rightarrow> pystr \<Rightarrow> symbol \<Rightarrow> error + nat" where
  "tree_model_k_follow_freq txt k g s =
     (case MarkovModelTree txt k of Inl e \<Rightarrow> Inl e | Inr t \<Rightarrow> tree_k_follow_freq t g s)"

definition tables_model_k_freq :: "pystr \<Rightarrow> int \<Rightarrow> pystr \<Rightarrow> error + nat" where
  "tables_model_k_freq txt k g =
     (case MarkovModelTables txt k of Inl e \<Rightarrow> Inl e | Inr T \<Rightarrow> tables_k_freq T g)"

definition tables_model_k_follow_freq :: "pystr \<Rightarrow> int \<Rightarrow> pystr \<Rightarrow> symbol \<Rightarrow> error + nat" where
  "tables_model_k_follow_freq txt k g s =
     (case MarkovModelTables txt k of Inl e \<Rightarrow> Inl e | Inr T \<Rightarrow> tables_k_follow_freq T g s)"

text \<open>A k-gram is observed in the tree when its path of length \<open>k\<close> exists, and in the
  tables when it is a key of \<open>_k_gram_count\<close>.\<close>

definition tree_model_observed :: "pystr \<Rightarrow> int \<Rightarrow> pystr \<Rightarrow> bool" where
  "tree_model_observed txt k g =
     (case MarkovModelTree txt k of
        Inl e \<Rightarrow> False
      | Inr t \<Rightarrow> int (length g) = tree_k t \<and> \<not> isl (descend (tree_root t) g))"

definition tables_model_observed :: "pystr \<Rightarrow> int \<Rightarrow> pystr \<Rightarrow> bool" where
  "tables_model_observed txt k g =
     (case MarkovModelTables txt k of
        Inl e \<Rightarrow> False
      | Inr T \<Rightarrow> g \<in> set (map fst (k_gram_count T)))"

text \<open>The sum of \<open>k_follow_freq(g, s)\<close> over a list of symbols; a failing query fails
  the sum.\<close>

fun follow_sum :: "(symbol \<Rightarrow> error + nat) \<Rightarrow> symbol list \<Rightarrow> error + nat" where
  "follow_sum q [] = Inr 0"
| "follow_sum q (s # ss) =
     (case q s of
        Inl e \<Rightarrow> Inl e
      | Inr c \<Rightarrow> (case follow_sum q ss of Inl e \<Rightarrow> Inl e | Inr rest \<Rightarrow> Inr (c + rest)))"

text \<open>The contract of the sampler: on weights with a positive sum it returns an index of
  the weight list. \<open>first_positive\<close> is one such sampler.\<close>

definition valid_sampler :: "(nat \<Rightarrow> nat list \<Rightarrow> nat) \<Rightarrow> bool" where
  "valid_sampler discrete \<longleftrightarrow> (\<forall>i ws. 0 < sum_list ws \<longrightarrow> discrete i ws < length ws)"

definition first_positive :: "nat \<Rightarrow> nat list \<Rightarrow> nat" where
  "first_positive i ws = length (takeWhile (\<lambda>w. w = 0) ws)"

text \<open>The generation loop run on the tree built from the corpus.\<close>

definition tree_generate :: "(nat \<Rightarrow> nat list \<Rightarrow> nat) \<Rightarrow> pystr \<Rightarrow> int \<Rightarrow> int \<Rightarrow> error + pystr"
  where
  "tree_generate discrete txt order' trajectory =
     (case MarkovModelTree txt order' of
        Inl e \<Rightarrow> Inl e
      | Inr mm \<Rightarrow> generate discrete mm txt order' trajectory)"

text \<open>The successors recorded for a k-gram in the tree, with their counts: the dictionary
  \<open>next_char\<close> samples from.\<close>

definition tree_model_successors :: "pystr \<Rightarrow> int \<Rightarrow> pystr \<Rightarrow> error + (symbol \<times> nat) list"
  where
  "tree_model_successors txt k g =
     (case MarkovModelTree txt k of
        Inl e \<Rightarrow> Inl e
      | Inr t \<Rightarrow>
          (case descend (tree_root t) g of
             Inl e \<Rightarrow> Inl e
           | Inr nd \<Rightarrow> Inr (get_letters_count nd)))"

definition tree_model_to_string :: "pystr \<Rightarrow> int \<Rightarrow> error + pystr" where
  "tree_model_to_string txt k =
     (case MarkovModelTree txt k of Inl e \<Rightarrow> Inl e | Inr t \<Rightarrow> tree_to_string t)"

text \<open>The nodes at a depth below a node, each with its path, in the order of the
  traversal.\<close>

primrec nodes_at :: "nat \<Rightarrow> node \<Rightarrow> (pystr \<times> node) list" where
  "nodes_at 0 nd = [([], nd)]"
| "nodes_at (Suc d) nd =
     concat (map (\<lambda>(c, n). map (\<lambda>(q, m). (c # q, m)) (nodes_at d n)) (neighbours nd))"

text \<open>The texts of the lines written for the nodes at a depth, in the order of the
  traversal.\<close>

definition lines_at :: "nat \<Rightarrow> node \<Rightarrow> pystr \<Rightarrow> pystr list" where
  "lines_at d nd path = map (\<lambda>(q, n). format_entry (path @ q) (letters_count n)) (nodes_at d nd)"

section \<open>Properties of the model representations\<close>

lemma conts_Nil: "conts [] ws = ws" by (simp add: conts_def)

lemma conts_Cons: "conts (c # cs) ws = conts cs (conts [c] ws)"
proof (induction ws)
  case Nil
  show ?case by (simp add: conts_def)
next
  case (Cons a ws)
  then show ?case by (cases a) (auto simp: conts_def)
qed

lemma conts_append: "conts (p @ q) ws = conts q (conts p ws)"
proof (induction p arbitrary: ws)
  case Nil
  show ?case by (simp add: conts_Nil)
next
  case (Cons c p)
  have "conts ((c # p) @ q) ws = conts (p @ q) (conts [c] ws)"
    using conts_Cons[of c "p @ q" ws] by simp
  also have "\<dots> = conts q (conts p (conts [c] ws))" by (rule Cons.IH)
  also have "\<dots> = conts q (conts (c # p) ws)" using conts_Cons[of c p ws] by simp
  finally show ?case .
qed

lemma length_conts: "length (conts p ws) = length (filter (prefix p) ws)"
  by (simp add: conts_def)

lemma conts_eq_Nil: "conts p ws = [] \<longleftrightarrow> (\<forall>w \<in> set ws. \<not> prefix p w)"
  by (auto simp: conts_def filter_empty_conv)

lemma set_update_distinct:
  "distinct (map fst al) \<Longrightarrow> set (AList.update k v al) = insert (k, v) {p \<in> set al. fst p \<noteq> k}"
  by (induction al) (auto simp: rev_image_eqI)

lemma map_of_None_keys: "map_of al k = None \<longleftrightarrow> k \<notin> set (map fst al)"
  by (simp add: map_of_eq_None_iff)

lemma conts_single_snoc:
  "conts [c] (ws @ [ch # rest]) = conts [c] ws @ (if c = ch then [rest] else [])"
  by (simp add: conts_def)

lemma conts_single_snoc_Nil: "conts [c] (ws @ [[]]) = conts [c] ws"
  by (simp add: conts_def)

lemma rep_cong: "(\<And>c. conts [c] ws = conts [c] ws') \<Longrightarrow> rep nd ws = rep nd ws'"
  by (cases nd) simp

lemma rep_update:
  assumes R: "rep (Node l nb lc) ws"
    and S: "rep son' (conts [ch] ws @ [rest])"
    and L: "letter son' = Some ch"
  shows "rep (Node l (AList.update ch son' nb)
               (AList.update ch (Suc (length (conts [ch] ws))) lc)) (ws @ [ch # rest])"
proof -
  from R have keys: "map fst lc = map fst nb" and dist: "distinct (map fst nb)"
    and cnt: "\<And>c. map_of lc c = (if conts [c] ws = [] then None else Some (length (conts [c] ws)))"
    and sons: "\<And>p. p \<in> set nb \<Longrightarrow> letter (snd p) = Some (fst p) \<and> rep (snd p) (conts [fst p] ws)"
    by auto
  have k': "map fst (AList.update ch (Suc (length (conts [ch] ws))) lc) = map fst (AList.update ch son' nb)"
    by (simp add: update_keys keys)
  have d': "distinct (map fst (AList.update ch son' nb))"
    by (rule distinct_update[OF dist])
  have c': "map_of (AList.update ch (Suc (length (conts [ch] ws))) lc) c =
        (if conts [c] (ws @ [ch # rest]) = [] then None
         else Some (length (conts [c] (ws @ [ch # rest]))))" for c
    by (simp add: update_conv' conts_single_snoc cnt)
  have s': "letter (snd p) = Some (fst p) \<and> rep (snd p) (conts [fst p] (ws @ [ch # rest]))"
    if "p \<in> set (AList.update ch son' nb)" for p
  proof -
    from that have "p = (ch, son') \<or> (p \<in> set nb \<and> fst p \<noteq> ch)"
      by (simp add: set_update_distinct[OF dist])
    then show ?thesis
    proof
      assume "p = (ch, son')"
      then show ?thesis using S L by (simp add: conts_single_snoc)
    next
      assume "p \<in> set nb \<and> fst p \<noteq> ch"
      then show ?thesis using sons[of p] by (simp add: conts_single_snoc)
    qed
  qed
  show ?thesis using k' d' c' s' by simp
qed

lemma add_word_rep:
  "rep nd ws \<Longrightarrow> \<exists>nd'. add_word nd w = Inr nd' \<and> rep nd' (ws @ [w]) \<and> letter nd' = letter nd"
proof (induction w arbitrary: nd ws)
  case Nil
  have "rep nd (ws @ [[]]) = rep nd ws"
    by (rule rep_cong) (rule conts_single_snoc_Nil)
  with Nil show ?case by simp
next
  case (Cons ch rest)
  obtain l nb lc where nd: "nd = Node l nb lc" by (cases nd)
  from Cons.prems nd have R: "rep (Node l nb lc) ws" by simp
  from R have keys: "map fst lc = map fst nb" and dist: "distinct (map fst nb)"
    and cnt: "\<And>c. map_of lc c = (if conts [c] ws = [] then None else Some (length (conts [c] ws)))"
    and sons: "\<And>p. p \<in> set nb \<Longrightarrow> letter (snd p) = Some (fst p) \<and> rep (snd p) (conts [fst p] ws)"
    by auto
  let ?m = "length (conts [ch] ws)"
  show ?case
  proof (cases "map_of nb ch")
    case None
    then have "ch \<notin> set (map fst lc)" by (simp add: map_of_None_keys keys)
    then have "map_of lc ch = None" by (simp add: map_of_None_keys)
    with cnt[of ch] have empty: "conts [ch] ws = []" by (simp split: if_splits)
    let ?E = "Node (Some ch) [] []"
    have as: "add_son nd ch = Inr (Node l (AList.update ch ?E nb) (AList.update ch (Suc 0) lc), ?E)"
      using None by (simp add: add_son_def nd update_conv')
    have "rep ?E []" by (simp add: conts_def)
    from Cons.IH[OF this] obtain son' where
      aw: "add_word ?E rest = Inr son'" and rs: "rep son' ([] @ [rest])" and ls: "letter son' = Some ch"
      by auto
    have res: "add_word nd (ch # rest) = Inr (Node l (AList.update ch son' nb) (AList.update ch (Suc ?m) lc))"
      using as aw empty by simp
    have "rep (Node l (AList.update ch son' nb) (AList.update ch (Suc ?m) lc)) (ws @ [ch # rest])"
      using rep_update[OF R _ ls, of rest] rs empty by simp
    with res show ?thesis by (simp add: nd)
  next
    case (Some son)
    then have mem: "(ch, son) \<in> set nb" by (rule map_of_SomeD)
    from sons[OF mem] have lson: "letter son = Some ch" and rson: "rep son (conts [ch] ws)" by auto
    from Some have "ch \<in> set (map fst lc)"
      using keys mem by (metis fst_conv image_eqI list.set_map)
    then have "map_of lc ch \<noteq> None" by (simp add: map_of_None_keys)
    with cnt[of ch] have lcch: "map_of lc ch = Some ?m" by (simp split: if_splits)
    have as: "add_son nd ch = Inr (Node l nb (AList.update ch (Suc ?m) lc), son)"
      using Some lcch by (simp add: add_son_def nd)
    from Cons.IH[OF rson] obtain son' where
      aw: "add_word son rest = Inr son'" and rs: "rep son' (conts [ch] ws @ [rest])"
      and ls: "letter son' = letter son"
      by auto
    have res: "add_word nd (ch # rest) = Inr (Node l (AList.update ch son' nb) (AList.update ch (Suc ?m) lc))"
      using as aw by simp
    have "rep (Node l (AList.update ch son' nb) (AList.update ch (Suc ?m) lc)) (ws @ [ch # rest])"
      using rep_update[OF R rs] ls lson by simp
    with res show ?thesis by (simp add: nd)
  qed
qed

lemma tree_build_rep:
  "rep root ws \<Longrightarrow>
   \<exists>r. tree_build txt k idxs root = Inr r \<and> rep r (ws @ map (window txt k) idxs)"
proof (induction idxs arbitrary: root ws)
  case Nil
  then show ?case by simp
next
  case (Cons i idxs)
  from add_word_rep[OF Cons.prems, of "window txt k i"] obtain r1 where
    a: "add_word root (window txt k i) = Inr r1" and r: "rep r1 (ws @ [window txt k i])"
    by auto
  from Cons.IH[OF r] obtain r2 where
    "tree_build txt k idxs r1 = Inr r2" and "rep r2 ((ws @ [window txt k i]) @ map (window txt k) idxs)"
    by auto
  with a show ?case by simp
qed

lemma MarkovModelTree_rep:
  "\<exists>t. MarkovModelTree txt k = Inr t \<and> tree_k t = k \<and> rep (tree_root t) (tree_windows txt k)"
proof -
  have "rep (Node None [] []) []" by (simp add: conts_def)
  from tree_build_rep[OF this, of "txt" "k + 1" "[0..<length txt]"] obtain r where
    "tree_build txt (k + 1) [0..<length txt] (Node None [] []) = Inr r"
    and "rep r (tree_windows txt k)"
    by (auto simp: tree_windows_def)
  then show ?thesis by (simp add: MarkovModelTree_def)
qed

lemma rep_get_son:
  assumes "rep nd ws"
  shows "(conts [c] ws = [] \<longrightarrow> get_son nd c = None) \<and>
         (conts [c] ws \<noteq> [] \<longrightarrow> (\<exists>son. get_son nd c = Some son \<and> rep son (conts [c] ws)))"
proof -
  obtain l nb lc where nd: "nd = Node l nb lc" by (cases nd)
  from assms nd have keys: "map fst lc = map fst nb" and dist: "distinct (map fst nb)"
    and cnt: "\<And>c. map_of lc c = (if conts [c] ws = [] then None else Some (length (conts [c] ws)))"
    and sons: "\<And>p. p \<in> set nb \<Longrightarrow> letter (snd p) = Some (fst p) \<and> rep (snd p) (conts [fst p] ws)"
    by auto
  have iff: "map_of nb c = None \<longleftrightarrow> conts [c] ws = []"
  proof -
    have "map_of nb c = None \<longleftrightarrow> map_of lc c = None"
      by (simp add: map_of_None_keys keys)
    also have "\<dots> \<longleftrightarrow> conts [c] ws = []" using cnt[of c] by simp
    finally show ?thesis .
  qed
  show ?thesis
  proof (cases "map_of nb c")
    case None
    with iff show ?thesis by (simp add: get_son_def nd)
  next
    case (Some son)
    then have "(c, son) \<in> set nb" by (rule map_of_SomeD)
    from sons[OF this] Some iff show ?thesis by (simp add: get_son_def nd)
  qed
qed

lemma rep_descend:
  "rep nd ws \<Longrightarrow>
   (conts p ws = [] \<and> p \<noteq> [] \<longrightarrow> descend nd p = Inl AttributeError) \<and>
   (conts p ws \<noteq> [] \<or> p = [] \<longrightarrow> (\<exists>n. descend nd p = Inr n \<and> rep n (conts p ws)))"
proof (induction p arbitrary: nd ws)
  case Nil
  then show ?case by (simp add: conts_Nil)
next
  case (Cons c p)
  note gs = rep_get_son[OF Cons.prems, of c]
  show ?case
  proof (cases "conts [c] ws = []")
    case True
    then have "conts (c # p) ws = []" using conts_Cons[of c p ws] by (simp add: conts_def)
    with True gs show ?thesis by simp
  next
    case False
    with gs obtain son where s: "get_son nd c = Some son" and r: "rep son (conts [c] ws)" by auto
    from Cons.IH[OF r] s False show ?thesis
      by (auto simp: conts_Cons[of c p ws] conts_Nil)
  qed
qed

lemma rep_get_letter_count:
  "rep nd ws \<Longrightarrow> get_letter_count nd s = length (conts [s] ws)"
  by (cases nd) (simp add: get_letter_count_def)

lemma py_slice_nat:
  "py_slice xs (int a) (int b) = take (min b (length xs) - min a (length xs)) (drop (min a (length xs)) xs)"
  by (simp add: py_slice_def slice_bound_def Let_def)

lemma window_rotate:
  assumes i: "i < length txt" and m: "m \<le> length txt"
  shows "window txt (int m) i = take m (rotate i txt)"
proof -
  let ?n = "length txt"
  have rot: "rotate i txt = drop i txt @ take i txt"
    using i by (simp add: rotate_drop_take)
  show ?thesis
  proof (cases "i + m < ?n")
    case True
    then have "window txt (int m) i = py_slice txt (int i) (int (i + m))"
      by (simp add: window_def Let_def)
    also have "\<dots> = take m (drop i txt)"
      using True by (simp only: py_slice_nat) simp
    also have "\<dots> = take m (rotate i txt)"
      using True by (simp add: rot)
    finally show ?thesis .
  next
    case False
    have modeq: "(int i + int m) mod int ?n = int (i + m - ?n)"
    proof -
      have "(i + m) mod ?n = (i + m - ?n) mod ?n"
        using False by (intro le_mod_geq) simp
      also have "\<dots> = i + m - ?n"
        using i m by (intro mod_less) arith
      finally have "(i + m) mod ?n = i + m - ?n" .
      then show ?thesis
        by (metis of_nat_add zmod_int)
    qed
    from False have "window txt (int m) i =
        py_slice txt (int i) (int ?n) @ py_slice txt (int 0) (int (i + m - ?n))"
      by (simp add: window_def modeq Let_def del: of_nat_diff)
    also have "\<dots> = drop i txt @ take (i + m - ?n) txt"
      using i m by (simp only: py_slice_nat) simp
    also have "\<dots> = take m (rotate i txt)"
    proof -
      have a: "m - (?n - i) = i + m - ?n" using False i by arith
      have b: "i + m - ?n \<le> i" using m by arith
      have c: "take m (drop i txt) = drop i txt" using False by simp
      show ?thesis using i by (simp add: rot a c min_absorb1[OF b])
    qed
    finally show ?thesis .
  qed
qed

lemma successor_rotate:
  assumes "k < length txt"
  shows "successor txt (int k) i = rotate i txt ! k"
proof -
  have "(int i + int k) mod int (length txt) = int ((i + k) mod length txt)"
    by (metis of_nat_add zmod_int)
  then show ?thesis using assms by (simp add: successor_def nth_rotate)
qed

lemma tree_window_split:
  assumes i: "i < length txt" and k: "k < length txt"
  shows "window txt (int k + 1) i = window txt (int k) i @ [successor txt (int k) i]"
proof -
  have "window txt (int (Suc k)) i = take (Suc k) (rotate i txt)"
    using i k by (intro window_rotate) simp_all
  also have "\<dots> = take k (rotate i txt) @ [rotate i txt ! k]"
    using k by (simp add: take_Suc_conv_app_nth)
  also have "\<dots> = window txt (int k) i @ [successor txt (int k) i]"
    using i k by (simp add: window_rotate successor_rotate)
  finally show ?thesis by (simp add: add.commute)
qed

lemma length_window:
  "i < length txt \<Longrightarrow> m \<le> length txt \<Longrightarrow> length (window txt (int m) i) = m"
  by (simp add: window_rotate)

lemma occ_snoc: "occ txt k g (js @ [j]) = occ txt k g js @ (if window txt k j = g then [j] else [])"
  by (simp add: occ_def)

lemma tables_step_present:
  assumes c: "map_of (k_gram_count T) (window txt k j) = Some c"
    and r: "map_of (k_gram_letter T) (window txt k j) = Some r"
  shows "tables_step txt k T j =
    (if successor txt k j < length r
     then Inr (T\<lparr>k_gram_count := AList.update (window txt k j) (c + 1) (k_gram_count T),
                 k_gram_letter := AList.update (window txt k j)
                    (r[successor txt k j := r ! successor txt k j + 1]) (k_gram_letter T)\<rparr>)
     else Inl IndexError)"
  using c r by (simp add: tables_step_def Let_def successor_def)

lemma tables_step_absent:
  assumes c: "map_of (k_gram_count T) (window txt k j) = None"
    and r: "map_of (k_gram_letter T) (window txt k j) = None"
  shows "tables_step txt k T j =
    (if successor txt k j < 128
     then Inr (T\<lparr>k_gram_count := AList.update (window txt k j) 1 (k_gram_count T),
                 k_gram_letter := AList.update (window txt k j)
                    ((replicate 128 0)[successor txt k j := 1]) (k_gram_letter T)\<rparr>)
     else Inl IndexError)"
  using c r by (simp add: tables_step_def Let_def successor_def update_conv')

lemma row_update_count:
  fixes r :: "nat list" and f :: "nat \<Rightarrow> nat"
  assumes rl: "length r = n" and rv: "\<And>s. s < n \<Longrightarrow> r ! s = length (filter (\<lambda>j. f j = s) xs)"
    and S: "f j < n" and s: "s < n"
  shows "r[f j := r ! f j + 1] ! s = length (filter (\<lambda>j. f j = s) (xs @ [j]))"
proof (cases "s = f j")
  case True
  then show ?thesis using rv[OF s] rl s by simp
next
  case False
  then show ?thesis using rv[OF s] rl s by auto
qed

lemma tables_step_inv:
  assumes R: "tab_rep txt k T js"
  shows "(successor txt k j < 128 \<longrightarrow>
            (\<exists>T'. tables_step txt k T j = Inr T' \<and> tab_rep txt k T' (js @ [j]) \<and>
                  tables_k T' = tables_k T)) \<and>
         (\<not> successor txt k j < 128 \<longrightarrow> tables_step txt k T j = Inl IndexError)"
proof -
  let ?g = "window txt k j"
  let ?i = "successor txt k j"
  let ?f = "successor txt k"
  from R have cnt: "\<And>g. map_of (k_gram_count T) g =
          (if occ txt k g js = [] then None else Some (length (occ txt k g js)))"
    and none: "\<And>g. (map_of (k_gram_letter T) g = None) = (occ txt k g js = [])"
    and row: "\<And>g row. map_of (k_gram_letter T) g = Some row \<Longrightarrow>
          length row = 128 \<and>
          (\<forall>s<128. row ! s = length (filter (\<lambda>j. successor txt k j = s) (occ txt k g js)))"
    by (auto simp: tab_rep_def)
  obtain r0 where r0l: "length r0 = 128"
    and r0v: "\<And>s. s < 128 \<Longrightarrow> r0 ! s = length (filter (\<lambda>j. ?f j = s) (occ txt k ?g js))"
    and eq: "tables_step txt k T j =
      (if ?i < 128
       then Inr (T\<lparr>k_gram_count := AList.update ?g (Suc (length (occ txt k ?g js))) (k_gram_count T),
                   k_gram_letter := AList.update ?g (r0[?i := r0 ! ?i + 1]) (k_gram_letter T)\<rparr>)
       else Inl IndexError)"
  proof (cases "occ txt k ?g js = []")
    case True
    have c: "map_of (k_gram_count T) ?g = None" using cnt[of ?g] True by simp
    have r: "map_of (k_gram_letter T) ?g = None" using none[of ?g] True by simp
    have "length (replicate 128 (0::nat)) = 128" by simp
    moreover have "replicate 128 (0::nat) ! s = length (filter (\<lambda>j. ?f j = s) (occ txt k ?g js))"
      if "s < 128" for s using that True by simp
    moreover have "tables_step txt k T j =
      (if ?i < 128
       then Inr (T\<lparr>k_gram_count := AList.update ?g (Suc (length (occ txt k ?g js))) (k_gram_count T),
                   k_gram_letter := AList.update ?g ((replicate 128 0)[?i := replicate 128 0 ! ?i + 1])
                      (k_gram_letter T)\<rparr>)
       else Inl IndexError)"
      unfolding tables_step_absent[OF c r] using True by simp
    ultimately show ?thesis by (rule that)
  next
    case False
    have c: "map_of (k_gram_count T) ?g = Some (length (occ txt k ?g js))"
      using cnt[of ?g] False by simp
    from none[of ?g] False obtain r where r: "map_of (k_gram_letter T) ?g = Some r" by auto
    from row[OF r] have rl: "length r = 128"
      and rv: "\<And>s. s < 128 \<Longrightarrow> r ! s = length (filter (\<lambda>j. ?f j = s) (occ txt k ?g js))"
      by auto
    have "tables_step txt k T j =
      (if ?i < 128
       then Inr (T\<lparr>k_gram_count := AList.update ?g (Suc (length (occ txt k ?g js))) (k_gram_count T),
                   k_gram_letter := AList.update ?g (r[?i := r ! ?i + 1]) (k_gram_letter T)\<rparr>)
       else Inl IndexError)"
      unfolding tables_step_present[OF c r] rl by simp
    with rl rv show ?thesis by (rule that)
  qed
  let ?T' = "T\<lparr>k_gram_count := AList.update ?g (Suc (length (occ txt k ?g js))) (k_gram_count T),
               k_gram_letter := AList.update ?g (r0[?i := r0 ! ?i + 1]) (k_gram_letter T)\<rparr>"
  have inv: "tab_rep txt k ?T' (js @ [j])" if S: "?i < 128"
  proof -
    have m1: "map_of (k_gram_count ?T') g =
          (if occ txt k g (js @ [j]) = [] then None else Some (length (occ txt k g (js @ [j]))))" for g
      using cnt[of g] by (simp add: update_conv' occ_snoc)
    have m2: "(map_of (k_gram_letter ?T') g = None) = (occ txt k g (js @ [j]) = [])" for g
      using none[of g] by (simp add: update_conv' occ_snoc)
    have m3: "length row = 128 \<and>
          (\<forall>s<128. row ! s = length (filter (\<lambda>j. successor txt k j = s) (occ txt k g (js @ [j]))))"
      if "map_of (k_gram_letter ?T') g = Some row" for g row
    proof (cases "g = ?g")
      case True
      with that have row_eq: "row = r0[?i := r0 ! ?i + 1]" by (simp add: update_conv')
      have "row ! s = length (filter (\<lambda>j. ?f j = s) (occ txt k ?g js @ [j]))" if s: "s < 128" for s
        unfolding row_eq by (rule row_update_count[OF r0l r0v S s])
      then show ?thesis using r0l True by (simp add: row_eq occ_snoc)
    next
      case False
      with that have "map_of (k_gram_letter T) g = Some row"
        by (simp add: update_conv')
      from row[OF this] False show ?thesis by (simp add: occ_snoc)
    qed
    show ?thesis unfolding tab_rep_def using m1 m2 m3 by blast
  qed
  show ?thesis using eq inv by simp
qed

lemma tables_step_ok:
  assumes R: "tab_rep txt k T js" and S: "successor txt k j < 128"
  shows "\<exists>T'. tables_step txt k T j = Inr T' \<and> tab_rep txt k T' (js @ [j]) \<and> tables_k T' = tables_k T"
  using tables_step_inv[OF R, of j] S by blast

lemma tables_step_fail:
  assumes R: "tab_rep txt k T js" and S: "\<not> successor txt k j < 128"
  shows "tables_step txt k T j = Inl IndexError"
  using tables_step_inv[OF R, of j] S by blast

lemma tables_build_ok:
  "tab_rep txt k T js \<Longrightarrow> \<forall>j \<in> set idxs. successor txt k j < 128 \<Longrightarrow>
   \<exists>T'. tables_build txt k idxs T = Inr T' \<and> tab_rep txt k T' (js @ idxs) \<and> tables_k T' = tables_k T"
proof (induction idxs arbitrary: T js)
  case Nil
  then show ?case by simp
next
  case (Cons i idxs)
  from Cons.prems have "successor txt k i < 128" by simp
  from tables_step_ok[OF Cons.prems(1) this] obtain T1 where
    s: "tables_step txt k T i = Inr T1" and r: "tab_rep txt k T1 (js @ [i])"
    and k1: "tables_k T1 = tables_k T" by auto
  from Cons.prems have "\<forall>j \<in> set idxs. successor txt k j < 128" by simp
  from Cons.IH[OF r this] s k1 show ?case by auto
qed

lemma tables_build_fail:
  "tab_rep txt k T js \<Longrightarrow> \<exists>j \<in> set idxs. \<not> successor txt k j < 128 \<Longrightarrow>
   tables_build txt k idxs T = Inl IndexError"
proof (induction idxs arbitrary: T js)
  case Nil
  then show ?case by simp
next
  case (Cons i idxs)
  show ?case
  proof (cases "successor txt k i < 128")
    case False
    from tables_step_fail[OF Cons.prems(1) False] show ?thesis by simp
  next
    case True
    from tables_step_ok[OF Cons.prems(1) True] obtain T1 where
      s: "tables_step txt k T i = Inr T1" and r: "tab_rep txt k T1 (js @ [i])" by auto
    from Cons.prems True have "\<exists>j \<in> set idxs. \<not> successor txt k j < 128" by auto
    from Cons.IH[OF r this] s show ?thesis by simp
  qed
qed

lemma successor_in_set:
  assumes "j < length txt"
  shows "successor txt k j \<in> set txt"
proof -
  from assms have pos: "0 < int (length txt)" by (cases "txt") simp_all
  have "0 \<le> (int j + k) mod int (length txt)" "(int j + k) mod int (length txt) < int (length txt)"
    using pos by simp_all
  then have "nat ((int j + k) mod int (length txt)) < length txt" by linarith
  then show ?thesis by (simp add: successor_def)
qed

lemma successor_onto:
  assumes "p < length txt"
  shows "\<exists>j < length txt. successor txt k j = txt ! p"
proof -
  let ?n = "int (length txt)"
  from assms have pos: "0 < ?n" by (cases "txt") simp_all
  let ?j = "nat ((int p - k) mod ?n)"
  have j0: "0 \<le> (int p - k) mod ?n" and j1: "(int p - k) mod ?n < ?n" using pos by simp_all
  then have jl: "?j < length txt" by linarith
  have "(int ?j + k) mod ?n = ((int p - k) mod ?n + k) mod ?n" using j0 by simp
  also have "\<dots> = (int p - k + k) mod ?n" by (simp add: mod_add_left_eq)
  also have "\<dots> = int p" using assms by simp
  finally have "successor txt k ?j = txt ! p" by (simp add: successor_def)
  with jl show ?thesis by blast
qed

lemma tab_rep_empty: "tab_rep txt k \<lparr>tables_k = k', k_gram_count = [], k_gram_letter = []\<rparr> []"
  by (simp add: tab_rep_def occ_def)

lemma MarkovModelTables_ok:
  assumes "ascii txt"
  shows "\<exists>T. MarkovModelTables txt k = Inr T \<and> tab_rep txt k T [0..<length txt] \<and> tables_k T = k"
proof -
  have "\<forall>j \<in> set [0..<length txt]. successor txt k j < 128"
    using assms successor_in_set[of _ "txt" k] by (auto simp: ascii_def list_all_iff)
  from tables_build_ok[OF tab_rep_empty this, of k] show ?thesis
    by (simp add: MarkovModelTables_def)
qed

lemma MarkovModelTables_fail:
  assumes "\<not> ascii txt"
  shows "MarkovModelTables txt k = Inl IndexError"
proof -
  from assms obtain c where "c \<in> set txt" "\<not> c < 128" by (auto simp: ascii_def list_all_iff)
  then obtain p where "p < length txt" "txt ! p = c" by (auto simp: in_set_conv_nth)
  with successor_onto[of p "txt" k] \<open>\<not> c < 128\<close>
  have "\<exists>j \<in> set [0..<length txt]. \<not> successor txt k j < 128"
    by (metis atLeast0LessThan lessThan_iff set_upt)
  from tables_build_fail[OF tab_rep_empty this] show ?thesis
    by (simp add: MarkovModelTables_def)
qed

lemma tree_model_k_follow_freq_eq:
  "tree_model_k_follow_freq txt k g s =
     (if g = [] \<or> conts g (tree_windows txt k) \<noteq> []
      then Inr (length (conts (g @ [s]) (tree_windows txt k)))
      else Inl AttributeError)"
proof -
  from MarkovModelTree_rep[of "txt" k] obtain t where
    t: "MarkovModelTree txt k = Inr t" and r: "rep (tree_root t) (tree_windows txt k)" by auto
  note d = rep_descend[OF r, of g]
  show ?thesis
  proof (cases "g = [] \<or> conts g (tree_windows txt k) \<noteq> []")
    case True
    with d obtain n where n: "descend (tree_root t) g = Inr n"
      and rn: "rep n (conts g (tree_windows txt k))" by auto
    from rep_get_letter_count[OF rn, of s] n t True show ?thesis
      by (simp add: tree_model_k_follow_freq_def tree_k_follow_freq_def conts_append)
  next
    case False
    with d have "descend (tree_root t) g = Inl AttributeError" by simp
    with t False show ?thesis
      by (simp add: tree_model_k_follow_freq_def tree_k_follow_freq_def)
  qed
qed

lemma tree_model_k_freq_eq:
  "tree_model_k_freq txt k g =
     (if butlast g = [] \<or> conts (butlast g) (tree_windows txt k) \<noteq> []
      then (if g = [] then Inl IndexError else Inr (length (conts g (tree_windows txt k))))
      else Inl AttributeError)"
proof -
  from MarkovModelTree_rep[of "txt" k] obtain t where
    t: "MarkovModelTree txt k = Inr t" and r: "rep (tree_root t) (tree_windows txt k)" by auto
  note d = rep_descend[OF r, of "butlast g"]
  show ?thesis
  proof (cases "butlast g = [] \<or> conts (butlast g) (tree_windows txt k) \<noteq> []")
    case True
    with d obtain n where n: "descend (tree_root t) (butlast g) = Inr n"
      and rn: "rep n (conts (butlast g) (tree_windows txt k))" by auto
    have "g \<noteq> [] \<Longrightarrow> conts [last g] (conts (butlast g) (tree_windows txt k)) = conts g (tree_windows txt k)"
      using conts_append[of "butlast g" "[last g]" "tree_windows txt k"] by simp
    with rep_get_letter_count[OF rn, of "last g"] n t True show ?thesis
      by (simp add: tree_model_k_freq_def tree_k_freq_def)
  next
    case False
    with d have "descend (tree_root t) (butlast g) = Inl AttributeError" by simp
    with t False show ?thesis
      by (simp add: tree_model_k_freq_def tree_k_freq_def)
  qed
qed

lemma tree_model_observed_eq:
  "tree_model_observed txt k g \<longleftrightarrow>
     int (length g) = k \<and> (g = [] \<or> conts g (tree_windows txt k) \<noteq> [])"
proof -
  from MarkovModelTree_rep[of "txt" k] obtain t where
    t: "MarkovModelTree txt k = Inr t" and tk: "tree_k t = k"
    and r: "rep (tree_root t) (tree_windows txt k)" by auto
  from rep_descend[OF r, of g] t tk show ?thesis
    by (auto simp: tree_model_observed_def)
qed

lemma tables_model_k_freq_eq:
  assumes "ascii txt"
  shows "tables_model_k_freq txt k g =
     (if occ txt k g [0..<length txt] = [] then Inl KeyError
      else Inr (length (occ txt k g [0..<length txt])))"
proof -
  from MarkovModelTables_ok[OF assms, of k] obtain T where
    T: "MarkovModelTables txt k = Inr T" and r: "tab_rep txt k T [0..<length txt]" by auto
  from r have "map_of (k_gram_count T) g =
          (if occ txt k g [0..<length txt] = [] then None
           else Some (length (occ txt k g [0..<length txt])))"
    by (simp add: tab_rep_def)
  with T show ?thesis by (simp add: tables_model_k_freq_def tables_k_freq_def)
qed

lemma tables_model_k_follow_freq_eq:
  assumes "ascii txt"
  shows "tables_model_k_follow_freq txt k g s =
     (if occ txt k g [0..<length txt] = [] then Inl KeyError
      else if s < 128
      then Inr (length (filter (\<lambda>j. successor txt k j = s) (occ txt k g [0..<length txt])))
      else Inl IndexError)"
proof -
  from MarkovModelTables_ok[OF assms, of k] obtain T where
    T: "MarkovModelTables txt k = Inr T" and r: "tab_rep txt k T [0..<length txt]" by auto
  from r have none: "(map_of (k_gram_letter T) g = None) = (occ txt k g [0..<length txt] = [])"
    and row: "\<And>row. map_of (k_gram_letter T) g = Some row \<Longrightarrow>
          length row = 128 \<and>
          (\<forall>s<128. row ! s = length (filter (\<lambda>j. successor txt k j = s) (occ txt k g [0..<length txt])))"
    by (auto simp: tab_rep_def)
  show ?thesis
  proof (cases "map_of (k_gram_letter T) g")
    case None
    with none T show ?thesis
      by (simp add: tables_model_k_follow_freq_def tables_k_follow_freq_def)
  next
    case (Some row')
    with none have ne: "occ txt k g [0..<length txt] \<noteq> []" by simp
    from row[OF Some] have l: "length row' = 128"
      and v: "\<And>s. s < 128 \<Longrightarrow> row' ! s = length (filter (\<lambda>j. successor txt k j = s) (occ txt k g [0..<length txt]))"
      by auto
    show ?thesis
    proof (cases "s < 128")
      case True
      with v[OF True] l ne Some T show ?thesis
        by (simp add: tables_model_k_follow_freq_def tables_k_follow_freq_def)
    next
      case False
      with l ne Some T show ?thesis
        by (simp add: tables_model_k_follow_freq_def tables_k_follow_freq_def)
    qed
  qed
qed

lemma tables_model_observed_eq:
  assumes "ascii txt"
  shows "tables_model_observed txt k g \<longleftrightarrow> occ txt k g [0..<length txt] \<noteq> []"
proof -
  from MarkovModelTables_ok[OF assms, of k] obtain T where
    T: "MarkovModelTables txt k = Inr T" and r: "tab_rep txt k T [0..<length txt]" by auto
  from r have "map_of (k_gram_count T) g =
          (if occ txt k g [0..<length txt] = [] then None
           else Some (length (occ txt k g [0..<length txt])))"
    by (simp add: tab_rep_def)
  then have "(map_of (k_gram_count T) g = None) = (occ txt k g [0..<length txt] = [])"
    by simp
  with T show ?thesis
    by (auto simp: tables_model_observed_def map_of_None_keys)
qed

text \<open>For an order below the corpus length, every tree window is a k-gram with its successor.\<close>

lemma tree_windows_split:
  assumes "m < length txt"
  shows "tree_windows txt (int m) =
         map (\<lambda>i. window txt (int m) i @ [successor txt (int m) i]) [0..<length txt]"
  unfolding tree_windows_def using assms by (simp add: tree_window_split)

lemma length_filter_map: "length (filter P (map f xs)) = length (filter (\<lambda>x. P (f x)) xs)"
  by (simp add: filter_map comp_def)

lemma conts_kgram:
  assumes m: "m < length txt" and g: "length g = m"
  shows "length (conts g (tree_windows txt (int m))) = length (occ txt (int m) g [0..<length txt])"
proof -
  have "filter (\<lambda>i. prefix g (window txt (int m) i @ [successor txt (int m) i])) [0..<length txt]
      = filter (\<lambda>i. window txt (int m) i = g) [0..<length txt]"
  proof (rule filter_cong[OF refl])
    fix i assume "i \<in> set [0..<length txt]"
    then have "length (window txt (int m) i) = m" using m by (simp add: length_window)
    with g show "prefix g (window txt (int m) i @ [successor txt (int m) i]) = (window txt (int m) i = g)"
      by (auto simp: prefix_def)
  qed
  moreover have "length (conts g (tree_windows txt (int m))) =
      length (filter (\<lambda>i. prefix g (window txt (int m) i @ [successor txt (int m) i])) [0..<length txt])"
    by (simp only: length_conts tree_windows_split[OF m] length_filter_map)
  ultimately show ?thesis by (simp only: occ_def)
qed

lemma conts_kgram_succ:
  assumes m: "m < length txt" and g: "length g = m"
  shows "length (conts (g @ [s]) (tree_windows txt (int m))) =
         length (filter (\<lambda>j. successor txt (int m) j = s) (occ txt (int m) g [0..<length txt]))"
proof -
  have "filter (\<lambda>i. prefix (g @ [s]) (window txt (int m) i @ [successor txt (int m) i])) [0..<length txt]
      = filter (\<lambda>i. window txt (int m) i = g \<and> successor txt (int m) i = s) [0..<length txt]"
  proof (rule filter_cong[OF refl])
    fix i assume "i \<in> set [0..<length txt]"
    then have "length (window txt (int m) i) = m" using m by (simp add: length_window)
    with g show "prefix (g @ [s]) (window txt (int m) i @ [successor txt (int m) i])
        = (window txt (int m) i = g \<and> successor txt (int m) i = s)"
      by (auto simp: prefix_def)
  qed
  moreover have "length (conts (g @ [s]) (tree_windows txt (int m))) =
      length (filter (\<lambda>i. prefix (g @ [s]) (window txt (int m) i @ [successor txt (int m) i]))
         [0..<length txt])"
    by (simp only: length_conts tree_windows_split[OF m] length_filter_map)
  ultimately show ?thesis by (simp add: occ_def conj_commute)
qed

lemma conts_butlast: "conts g ws \<noteq> [] \<Longrightarrow> conts (butlast g) ws \<noteq> []"
proof -
  assume "conts g ws \<noteq> []"
  then obtain w where w: "w \<in> set ws" "prefix g w" by (auto simp: conts_eq_Nil)
  have "prefix (butlast g) g" by (simp add: prefixeq_butlast)
  with w have "prefix (butlast g) w" by (meson prefix_order.trans)
  with w show ?thesis by (auto simp: conts_eq_Nil)
qed

lemma order_nat:
  assumes "1 \<le> k" "k < int (length txt)"
  obtains m where "k = int m" "1 \<le> m" "m < length txt"
proof -
  from assms have "k = int (nat k)" "1 \<le> nat k" "nat k < length txt" by auto
  then show ?thesis by (rule that)
qed

lemma occ_length:
  assumes "m < length txt" "occ txt (int m) g [0..<length txt] \<noteq> []"
  shows "length g = m"
proof -
  from assms(2) obtain i where "i < length txt" "window txt (int m) i = g"
    by (auto simp: occ_def filter_empty_conv)
  with assms(1) show ?thesis using length_window[of i "txt" m] by auto
qed

text \<open>For an order from 1 to below the corpus length, both models observe the same
  k-grams: those that occur as a window of the corpus.\<close>

lemma observed_occ:
  assumes m: "1 \<le> m" "m < length txt"
    and obs: "tree_model_observed txt (int m) g \<or> tables_model_observed txt (int m) g"
  shows "length g = m \<and> occ txt (int m) g [0..<length txt] \<noteq> []"
  using obs
proof
  assume "tree_model_observed txt (int m) g"
  then have l: "length g = m" and c: "g = [] \<or> conts g (tree_windows txt (int m)) \<noteq> []"
    by (auto simp: tree_model_observed_eq)
  from l m have "g \<noteq> []" by auto
  with c have "length (conts g (tree_windows txt (int m))) \<noteq> 0" by simp
  then have "occ txt (int m) g [0..<length txt] \<noteq> []"
    by (simp only: conts_kgram[OF m(2) l]) simp
  with l show ?thesis by simp
next
  assume t: "tables_model_observed txt (int m) g"
  have a: "ascii txt"
  proof (rule ccontr)
    assume "\<not> ascii txt"
    from MarkovModelTables_fail[OF this, of "int m"] t show False
      by (simp add: tables_model_observed_def)
  qed
  from t have o: "occ txt (int m) g [0..<length txt] \<noteq> []"
    by (simp add: tables_model_observed_eq[OF a])
  with occ_length[OF m(2) o] show ?thesis by simp
qed

lemma tree_queries_observed:
  assumes m: "1 \<le> m" "m < length txt"
    and l: "length g = m" and o: "occ txt (int m) g [0..<length txt] \<noteq> []"
  shows "tree_model_k_freq txt (int m) g = Inr (length (occ txt (int m) g [0..<length txt]))"
    and "tree_model_k_follow_freq txt (int m) g s =
           Inr (length (filter (\<lambda>j. successor txt (int m) j = s) (occ txt (int m) g [0..<length txt])))"
proof -
  from l m have ne: "g \<noteq> []" by auto
  from o have "length (conts g (tree_windows txt (int m))) \<noteq> 0"
    by (simp only: conts_kgram[OF m(2) l]) simp
  then have c: "conts g (tree_windows txt (int m)) \<noteq> []" by simp
  from conts_butlast[OF c] ne show "tree_model_k_freq txt (int m) g = Inr (length (occ txt (int m) g [0..<length txt]))"
    by (simp add: tree_model_k_freq_eq conts_kgram[OF m(2) l])
  from c show "tree_model_k_follow_freq txt (int m) g s =
           Inr (length (filter (\<lambda>j. successor txt (int m) j = s) (occ txt (int m) g [0..<length txt])))"
    by (simp add: tree_model_k_follow_freq_eq conts_kgram_succ[OF m(2) l])
qed

lemma follow_sum_Inr:
  "(\<And>s. s \<in> set ss \<Longrightarrow> q s = Inr (f s)) \<Longrightarrow> follow_sum q ss = Inr (sum_list (map f ss))"
  by (induction ss) simp_all

lemma sum_counts:
  assumes "finite S" and "\<forall>x \<in> set xs. h x \<in> S"
  shows "(\<Sum>s\<in>S. length (filter (\<lambda>x. h x = s) xs)) = length xs"
  using assms(2)
proof (induction xs)
  case Nil
  then show ?case by simp
next
  case (Cons x xs)
  have "(\<Sum>s\<in>S. length (filter (\<lambda>x. h x = s) (x # xs))) =
        (\<Sum>s\<in>S. (if h x = s then 1 else 0) + length (filter (\<lambda>x. h x = s) xs))"
    by (rule sum.cong) simp_all
  also have "\<dots> = (\<Sum>s\<in>S. (if h x = s then 1 else 0)) + (\<Sum>s\<in>S. length (filter (\<lambda>x. h x = s) xs))"
    by (simp add: sum.distrib)
  also have "(\<Sum>s\<in>S. (if h x = s then 1 else 0 :: nat)) = 1"
    using Cons.prems assms(1) by simp
  finally show ?case using Cons by simp
qed

lemma sum_list_counts:
  assumes "distinct ss" and "\<forall>x \<in> set xs. h x \<in> set ss"
  shows "sum_list (map (\<lambda>s. length (filter (\<lambda>x. h x = s) xs)) ss) = length xs"
  using sum_counts[OF finite_set assms(2)] assms(1)
  by (simp add: sum_list_distinct_conv_sum_set)

lemma occ_subset: "set (occ txt k g js) \<subseteq> set js"
  by (auto simp: occ_def)

lemma py_slice_prefix: "py_slice xs 0 (int m) = take m xs"
  using py_slice_nat[of xs 0 m] by (cases "m \<le> length xs") (simp_all add: min_def)

lemma rep_letters_count:
  assumes "rep nd ws"
  shows "distinct (map fst (letters_count nd))"
    and "\<And>c. c \<in> fst ` set (letters_count nd) \<longleftrightarrow> conts [c] ws \<noteq> []"
    and "\<And>v. v \<in> set (map snd (letters_count nd)) \<Longrightarrow> 0 < v"
proof -
  obtain l nb lc where nd: "nd = Node l nb lc" by (cases nd)
  from assms nd have keys: "map fst lc = map fst nb" and dist: "distinct (map fst nb)"
    and cnt: "\<And>c. map_of lc c = (if conts [c] ws = [] then None else Some (length (conts [c] ws)))"
    by auto
  from keys dist show "distinct (map fst (letters_count nd))" by (simp add: nd)
  show "c \<in> fst ` set (letters_count nd) \<longleftrightarrow> conts [c] ws \<noteq> []" for c
  proof -
    have "c \<in> fst ` set lc \<longleftrightarrow> map_of lc c \<noteq> None"
      using map_of_None_keys[of lc c] by simp
    also have "\<dots> \<longleftrightarrow> conts [c] ws \<noteq> []" using cnt[of c] by simp
    finally show ?thesis by (simp add: nd)
  qed
  show "0 < v" if "v \<in> set (map snd (letters_count nd))" for v
  proof -
    from that obtain c where "(c, v) \<in> set lc" by (auto simp: nd)
    with keys dist have "map_of lc c = Some v" by simp
    with cnt[of c] show ?thesis by (auto split: if_splits)
  qed
qed

lemma sum_list_pos:
  fixes vs :: "nat list"
  assumes "vs \<noteq> []" and "\<And>v. v \<in> set vs \<Longrightarrow> 0 < v"
  shows "0 < sum_list vs"
  using assms by (cases vs) auto

lemma window_tl:
  assumes m: "m < length txt" and j: "j < length txt"
  shows "tl (window txt (int m + 1) j) = window txt (int m) (Suc j mod length txt)"
proof -
  let ?xs = "rotate j txt"
  from j have ne: "?xs \<noteq> []" by auto
  have "window txt (int (Suc m)) j = take (Suc m) ?xs"
    using m j by (intro window_rotate) simp_all
  moreover have "int (Suc m) = int m + 1" by simp
  ultimately have "window txt (int m + 1) j = take (Suc m) ?xs" by (simp only:)
  then have "tl (window txt (int m + 1) j) = take m (tl ?xs)"
    by (simp only: take_tl)
  moreover have "window txt (int m) (Suc j mod length txt) = take m (rotate (Suc j mod length txt) txt)"
  proof -
    from j have "0 < length txt" by (cases "txt") simp_all
    then have "Suc j mod length txt < length txt" by simp
    then show ?thesis using m by (intro window_rotate) simp_all
  qed
  moreover have "rotate (Suc j mod length txt) txt = rotate1 ?xs"
    by (simp add: rotate_conv_mod[symmetric])
  moreover have "take m (rotate1 ?xs) = take m (tl ?xs)"
    using ne m by (cases ?xs) (auto dest: arg_cong[where f = length])
  ultimately show ?thesis by simp
qed

lemma tree_next_char_kgram:
  assumes v: "valid_sampler discrete" and m: "m < length txt" and i: "i < length txt"
    and t: "MarkovModelTree txt (int m) = Inr t"
  shows "\<exists>c j. j < length txt \<and>
           tree_next_char (discrete x) t (window txt (int m) i) = Inr c \<and>
           window txt (int m + 1) j = window txt (int m) i @ [c]"
proof -
  let ?W = "tree_windows txt (int m)"
  let ?st = "window txt (int m) i"
  from MarkovModelTree_rep[of "txt" "int m"] t have r: "rep (tree_root t) ?W" by auto
  have wi: "window txt (int m + 1) i \<in> set ?W" using i by (simp add: tree_windows_def)
  have pre: "prefix (?st @ [successor txt (int m) i]) (window txt (int m + 1) i)"
    by (simp add: tree_window_split[OF i m])
  with wi have c1: "conts (?st @ [successor txt (int m) i]) ?W \<noteq> []"
    by (auto simp: conts_eq_Nil)
  then have "conts [successor txt (int m) i] (conts ?st ?W) \<noteq> []"
    by (simp add: conts_append)
  then have c0: "conts ?st ?W \<noteq> []" by (auto simp: conts_def)
  with rep_descend[OF r, of ?st] obtain nd where
    d: "descend (tree_root t) ?st = Inr nd" and rn: "rep nd (conts ?st ?W)" by auto
  note lc = rep_letters_count[OF rn]
  let ?lc = "letters_count nd"
  from c1 have "successor txt (int m) i \<in> fst ` set ?lc"
    by (simp add: lc(2) conts_append)
  then have ne: "map snd ?lc \<noteq> []" by auto
  from sum_list_pos[OF ne lc(3)] have "0 < sum_list (map snd ?lc)" by simp
  with v have "discrete x (map snd ?lc) < length (map snd ?lc)"
    unfolding valid_sampler_def by blast
  then have idx: "discrete x (map snd ?lc) < length ?lc" by simp
  define c where "c = map fst ?lc ! discrete x (map snd ?lc)"
  from idx have "c \<in> set (map fst ?lc)" unfolding c_def by (metis nth_mem length_map)
  then have "c \<in> fst ` set ?lc" by simp
  then have "conts (?st @ [c]) ?W \<noteq> []" by (simp add: lc(2) conts_append)
  then obtain w where w: "w \<in> set ?W" "prefix (?st @ [c]) w" by (auto simp: conts_eq_Nil)
  from w(1) obtain j where j: "j < length txt" "w = window txt (int m + 1) j"
    by (auto simp: tree_windows_def)
  have "length (window txt (int (Suc m)) j) = Suc m"
    using j(1) m by (intro length_window) simp_all
  then have "length w = Suc m" by (simp add: j(2) add.commute)
  moreover have "length (?st @ [c]) = Suc m" using i m by (simp add: length_window)
  ultimately have "w = ?st @ [c]" using w(2) by (auto simp: prefix_def)
  with j d idx show ?thesis
    by (auto simp: tree_next_char_def get_letters_count_def c_def Let_def)
qed

lemma py_slice_tl: "py_slice xs 1 (int (length xs)) = tl xs"
  using py_slice_nat[of xs 1 "length xs"] by (cases xs) simp_all

lemma gen_loop_length:
  assumes v: "valid_sampler discrete" and m: "1 \<le> m" "m < length txt"
    and t: "MarkovModelTree txt (int m) = Inr t"
  shows "i < length txt \<Longrightarrow>
         \<exists>tj'. gen_loop discrete t x r (window txt (int m) i) tj = Inr tj' \<and>
               length tj' = length tj + r"
proof (induction r arbitrary: i x tj)
  case 0
  then show ?case by simp
next
  case (Suc r)
  let ?st = "window txt (int m) i"
  from tree_next_char_kgram[OF v m(2) Suc.prems t, of x] obtain c j where
    j: "j < length txt" and nc: "tree_next_char (discrete x) t ?st = Inr c"
    and w: "window txt (int m + 1) j = ?st @ [c]" by auto
  have "length ?st = m" using Suc.prems m by (simp add: length_window)
  with m have ne: "?st \<noteq> []" by auto
  have "tl ?st @ [c] = tl (window txt (int m + 1) j)" using ne by (simp add: w)
  also have "\<dots> = window txt (int m) (Suc j mod length txt)" by (rule window_tl[OF m(2) j])
  finally have st': "py_slice ?st 1 (int (length ?st)) @ [c] = window txt (int m) (Suc j mod length txt)"
    by (simp add: py_slice_tl)
  have "0 < length txt" using j by (cases "txt") simp_all
  then have "Suc j mod length txt < length txt" by simp
  from Suc.IH[OF this, of "Suc x" "tj @ [c]"] nc st' show ?case by simp
qed

lemma valid_first_positive: "valid_sampler first_positive"
proof -
  have "length (takeWhile (\<lambda>w. w = 0) ws) < length ws" if "0 < sum_list ws" for ws :: "nat list"
    using that by (induction ws) auto
  then show ?thesis by (simp add: valid_sampler_def first_positive_def)
qed

lemma valid_sampler_single:
  assumes "valid_sampler discrete" and "0 < w"
  shows "discrete x [w] = 0"
proof -
  have "0 < sum_list [w]" using assms(2) by simp
  with assms(1) have "discrete x [w] < length [w]" unfolding valid_sampler_def by blast
  then show ?thesis by simp
qed

lemma str_nat_no_newline: "10 \<notin> set (str_nat n)"
proof (induction n rule: str_nat.induct)
  case (1 n)
  show ?case
  proof (cases "n < 10")
    case True
    then show ?thesis by (subst str_nat.simps) simp
  next
    case False
    with 1 show ?thesis by (subst str_nat.simps) simp
  qed
qed

lemma set_join: "set (join sep xs) \<subseteq> set sep \<union> \<Union> (set ` set xs)"
  by (induction sep xs rule: join.induct) auto

lemma split_on_line:
  "sep \<notin> set l \<Longrightarrow> split_on sep (l @ sep # rest) = l # split_on sep rest"
  by (induction l) auto

lemma split_on_single: "sep \<notin> set l \<Longrightarrow> split_on sep l = [l]"
  by (induction l) auto

lemma split_on_lines:
  "\<forall>l \<in> set ls. sep \<notin> set l \<Longrightarrow>
   split_on sep (concat (map (\<lambda>l. l @ [sep]) ls)) = ls @ [[]]"
  by (induction ls) (simp_all add: split_on_line)

lemma split_on_join:
  "xs \<noteq> [] \<Longrightarrow> \<forall>l \<in> set xs. sep \<notin> set l \<Longrightarrow> split_on sep (join [sep] xs) = xs"
proof (induction "[sep]" xs rule: join.induct)
  case 1
  then show ?case by simp
next
  case (2 x)
  then show ?case by (simp add: split_on_single)
next
  case (3 x y ys)
  then show ?case by (simp add: split_on_line)
qed

lemma lines_at_0: "lines_at 0 nd path = [format_entry path (letters_count nd)]"
  by (simp add: lines_at_def)

lemma lines_at_Suc:
  "lines_at (Suc d) nd path = concat (map (\<lambda>(c, n). lines_at d n (path @ [c])) (neighbours nd))"
  by (simp add: lines_at_def map_concat comp_def split_def)

lemma stringify_sons_lines:
  assumes step: "\<And>c n path res. (c, n) \<in> set sons \<Longrightarrow>
      stringify level n path res = Inr (res @ concat (map (\<lambda>l. l @ [10]) (lines_at d n path)))"
    and letters: "\<And>c n. (c, n) \<in> set sons \<Longrightarrow> letter n = Some c"
  shows "stringify_sons level sons path res =
     Inr (res @ concat (map (\<lambda>l. l @ [10]) (concat (map (\<lambda>(c, n). lines_at d n (path @ [c])) sons))))"
  using assms
proof (induction sons arbitrary: res)
  case Nil
  then show ?case by simp
next
  case (Cons p sons)
  obtain c n where p: "p = (c, n)" by (cases p)
  have l: "letter n = Some c" using Cons.prems(2)[of c n] p by simp
  have s: "stringify level n (path @ [c]) res =
      Inr (res @ concat (map (\<lambda>l. l @ [10]) (lines_at d n (path @ [c]))))"
    using Cons.prems(1)[of c n] p by simp
  have "stringify_sons level sons path (res @ concat (map (\<lambda>l. l @ [10]) (lines_at d n (path @ [c])))) =
     Inr ((res @ concat (map (\<lambda>l. l @ [10]) (lines_at d n (path @ [c])))) @
          concat (map (\<lambda>l. l @ [10]) (concat (map (\<lambda>(c, n). lines_at d n (path @ [c])) sons))))"
    by (rule Cons.IH) (use Cons.prems in auto)
  with l s show ?case by (simp add: p)
qed

lemma rep_sons:
  assumes "rep nd ws" and "(c, n) \<in> set (neighbours nd)"
  shows "letter n = Some c" and "rep n (conts [c] ws)" and "get_son nd c = Some n"
proof -
  obtain l nb lc where nd: "nd = Node l nb lc" by (cases nd)
  from assms nd have dist: "distinct (map fst nb)"
    and sons: "\<And>p. p \<in> set nb \<Longrightarrow> letter (snd p) = Some (fst p) \<and> rep (snd p) (conts [fst p] ws)"
    and mem: "(c, n) \<in> set nb"
    by auto
  from sons[OF mem] show "letter n = Some c" and "rep n (conts [c] ws)" by simp_all
  from dist mem show "get_son nd c = Some n" by (simp add: get_son_def nd)
qed

lemma stringify_lines:
  "rep nd ws \<Longrightarrow>
   stringify (int d) nd path res = Inr (res @ concat (map (\<lambda>l. l @ [10]) (lines_at d nd path)))"
proof (induction d arbitrary: nd ws path res)
  case 0
  then show ?case by (cases nd) (simp add: lines_at_0)
next
  case (Suc d)
  obtain l nb lc where nd: "nd = Node l nb lc" by (cases nd)
  have "stringify_sons (int d) nb path res =
     Inr (res @ concat (map (\<lambda>l. l @ [10]) (concat (map (\<lambda>(c, n). lines_at d n (path @ [c])) nb))))"
  proof (rule stringify_sons_lines)
    fix c n path' res'
    assume "(c, n) \<in> set nb"
    then have "(c, n) \<in> set (neighbours nd)" by (simp add: nd)
    from rep_sons(2)[OF Suc.prems this]
    show "stringify (int d) n path' res' = Inr (res' @ concat (map (\<lambda>l. l @ [10]) (lines_at d n path')))"
      by (rule Suc.IH)
  next
    fix c n
    assume "(c, n) \<in> set nb"
    then have "(c, n) \<in> set (neighbours nd)" by (simp add: nd)
    from rep_sons(1)[OF Suc.prems this] show "letter n = Some c" .
  qed
  then show ?case by (simp add: nd lines_at_Suc)
qed

lemma nodes_at_set:
  "rep nd ws \<Longrightarrow> (q, m) \<in> set (nodes_at d nd) \<longleftrightarrow> length q = d \<and> descend nd q = Inr m"
proof (induction d arbitrary: nd ws q)
  case 0
  then show ?case by auto
next
  case (Suc d)
  show ?case
  proof
    assume "(q, m) \<in> set (nodes_at (Suc d) nd)"
    then obtain c n q' where mem: "(c, n) \<in> set (neighbours nd)" and q: "q = c # q'"
      and in': "(q', m) \<in> set (nodes_at d n)" by auto
    from rep_sons[OF Suc.prems mem] have r: "rep n (conts [c] ws)" and g: "get_son nd c = Some n"
      by simp_all
    from Suc.IH[OF r, of q'] in' have "length q' = d" "descend n q' = Inr m" by simp_all
    with q g show "length q = Suc d \<and> descend nd q = Inr m" by simp
  next
    assume a: "length q = Suc d \<and> descend nd q = Inr m"
    then obtain c q' where q: "q = c # q'" and l: "length q' = d" by (cases q) auto
    from a q obtain n where g: "get_son nd c = Some n" and d': "descend n q' = Inr m"
      by (auto split: option.splits)
    from g have mem: "(c, n) \<in> set (neighbours nd)"
      by (auto simp: get_son_def dest: map_of_SomeD)
    from rep_sons(2)[OF Suc.prems mem] have r: "rep n (conts [c] ws)" .
    from Suc.IH[OF r, of q'] l d' have "(q', m) \<in> set (nodes_at d n)" by simp
    with mem q show "(q, m) \<in> set (nodes_at (Suc d) nd)" by force
  qed
qed

lemma distinct_concat_heads:
  assumes "distinct (map fst nb)" and "\<And>c n. (c, n) \<in> set nb \<Longrightarrow> distinct (F n)"
  shows "distinct (concat (map (\<lambda>(c, n). map ((#) c) (F n)) nb))"
  using assms
proof (induction nb)
  case Nil
  then show ?case by simp
next
  case (Cons p nb)
  obtain c n where p: "p = (c, n)" by (cases p)
  have d1: "distinct (map ((#) c) (F n))"
    using Cons.prems(2)[of c n] p by (simp add: distinct_map)
  have d2: "distinct (concat (map (\<lambda>(c, n). map ((#) c) (F n)) nb))"
    using Cons.prems by (intro Cons.IH) auto
  have "c \<notin> fst ` set nb" using Cons.prems(1) p by simp
  then have d3: "set (map ((#) c) (F n)) \<inter> set (concat (map (\<lambda>(c, n). map ((#) c) (F n)) nb)) = {}"
    by force
  from d1 d2 d3 show ?case by (simp add: p)
qed

lemma nodes_at_distinct: "rep nd ws \<Longrightarrow> distinct (map fst (nodes_at d nd))"
proof (induction d arbitrary: nd ws)
  case 0
  then show ?case by simp
next
  case (Suc d)
  have keys: "distinct (map fst (neighbours nd))" using Suc.prems by (cases nd) simp
  have "map fst (nodes_at (Suc d) nd) =
        concat (map (\<lambda>(c, n). map ((#) c) (map fst (nodes_at d n))) (neighbours nd))"
    by (simp add: map_concat comp_def split_def)
  moreover have "distinct (concat (map (\<lambda>(c, n). map ((#) c) (map fst (nodes_at d n))) (neighbours nd)))"
  proof (rule distinct_concat_heads[OF keys])
    fix c n assume "(c, n) \<in> set (neighbours nd)"
    from rep_sons(2)[OF Suc.prems this] show "distinct (map fst (nodes_at d n))" by (rule Suc.IH)
  qed
  ultimately show ?case by simp
qed

lemma join_avoids:
  assumes "c \<notin> set sep" and "\<And>x. x \<in> set xs \<Longrightarrow> c \<notin> set x"
  shows "c \<notin> set (join sep xs)"
  using set_join[of sep xs] assms by blast

lemma set_py_slice: "set (py_slice xs a b) \<subseteq> set xs"
  by (auto simp: py_slice_def Let_def dest: in_set_takeD in_set_dropD)

lemma set_window: "set (window txt k i) \<subseteq> set txt"
  using set_py_slice[of "txt"] by (auto simp: window_def Let_def)

lemma conts_symbols:
  assumes "conts p (tree_windows txt k) \<noteq> []"
  shows "set p \<subseteq> set txt"
proof -
  from assms obtain w where "w \<in> set (tree_windows txt k)" and "prefix p w"
    by (auto simp: conts_eq_Nil)
  then show ?thesis using set_window[of "txt" "k + 1"] set_mono_prefix[of p w]
    by (auto simp: tree_windows_def)
qed

lemma entry_no_newline:
  assumes nl: "10 \<notin> set txt" and r: "rep root (tree_windows txt k)"
    and d: "descend root q = Inr n"
  shows "10 \<notin> set (format_entry q (letters_count n))"
proof -
  let ?W = "tree_windows txt k"
  from rep_descend[OF r, of q] d have c: "q = [] \<or> conts q ?W \<noteq> []"
    and rn: "rep n (conts q ?W)" by auto
  from c nl conts_symbols[of q "txt" k] have q: "10 \<notin> set q" by auto
  have keys: "10 \<noteq> c" if "c \<in> fst ` set (letters_count n)" for c
  proof -
    from that have "conts (q @ [c]) ?W \<noteq> []"
      by (simp add: rep_letters_count(2)[OF rn] conts_append)
    from conts_symbols[OF this] nl show ?thesis by auto
  qed
  have items: "10 \<notin> set ((\<lambda>(k, v). [k] @ [32] @ str_nat v) p)" if "p \<in> set (letters_count n)" for p
  proof -
    obtain c v where p: "p = (c, v)" by (cases p)
    with that have "c \<in> fst ` set (letters_count n)" by force
    from keys[OF this] show ?thesis by (simp add: p str_nat_no_newline)
  qed
  have "10 \<notin> set (join [32] (map (\<lambda>(k, v). [k] @ [32] @ str_nat v) (letters_count n)))"
  proof (rule join_avoids)
    show "10 \<notin> set [32::nat]" by simp
  next
    fix x assume "x \<in> set (map (\<lambda>(k, v). [k] @ [32] @ str_nat v) (letters_count n))"
    then obtain p where "p \<in> set (letters_count n)" and "x = (\<lambda>(k, v). [k] @ [32] @ str_nat v) p"
      by auto
    with items[of p] show "10 \<notin> set x" by simp
  qed
  with q show ?thesis by (simp add: format_entry_def)
qed





lemma conservation_general:
  assumes "1 \<le> k" and "k < int (length txt)"
    and "tree_model_observed txt k g \<or> tables_model_observed txt k g"
    and "distinct ss" and "set txt \<subseteq> set ss"
  shows "follow_sum (tree_model_k_follow_freq txt k g) ss = tree_model_k_freq txt k g \<and>
         \<not> isl (tree_model_k_freq txt k g) \<and>
         (ascii ss \<longrightarrow>
            follow_sum (tables_model_k_follow_freq txt k g) ss = tables_model_k_freq txt k g \<and>
            \<not> isl (tables_model_k_freq txt k g))"
proof -
  from assms(1,2) obtain m where k: "k = int m" and m: "1 \<le> m" "m < length txt"
    by (rule order_nat)
  from observed_occ[OF m] assms(3) have l: "length g = m"
    and o: "occ txt (int m) g [0..<length txt] \<noteq> []" by (auto simp: k)
  let ?occ = "occ txt (int m) g [0..<length txt]"
  let ?f = "\<lambda>s. length (filter (\<lambda>j. successor txt (int m) j = s) ?occ)"
  have "\<forall>j \<in> set ?occ. successor txt (int m) j \<in> set ss"
  proof
    fix j assume "j \<in> set ?occ"
    with occ_subset[of "txt" "int m" g "[0..<length txt]"] have "j < length txt" by auto
    from successor_in_set[OF this, of "int m"] assms(5) show "successor txt (int m) j \<in> set ss"
      by blast
  qed
  from sum_list_counts[OF assms(4) this] have total: "sum_list (map ?f ss) = length ?occ" .
  have tree: "follow_sum (tree_model_k_follow_freq txt (int m) g) ss = Inr (sum_list (map ?f ss))"
    by (rule follow_sum_Inr) (simp add: tree_queries_observed[OF m l o])
  have tabs: "follow_sum (tables_model_k_follow_freq txt (int m) g) ss = Inr (sum_list (map ?f ss))"
    if a: "ascii ss"
  proof (rule follow_sum_Inr)
    fix s assume s: "s \<in> set ss"
    from a assms(5) have at: "ascii txt" by (auto simp: ascii_def list_all_iff)
    from a s have "s < 128" by (auto simp: ascii_def list_all_iff)
    with o show "tables_model_k_follow_freq txt (int m) g s = Inr (?f s)"
      by (simp add: tables_model_k_follow_freq_eq[OF at])
  qed
  have tabf: "tables_model_k_freq txt (int m) g = Inr (length ?occ)" if a: "ascii ss"
  proof -
    from a assms(5) have at: "ascii txt" by (auto simp: ascii_def list_all_iff)
    with o show ?thesis by (simp add: tables_model_k_freq_eq[OF at])
  qed
  show ?thesis
    unfolding k using tree tabs tabf total by (simp add: tree_queries_observed[OF m l o])
qed

lemma ascii_alphabet: "n \<le> 128 \<Longrightarrow> ascii [0..<n]"
  by (auto simp: ascii_def list_all_iff)

lemma ascii_subset_alphabet: "ascii txt \<Longrightarrow> n = 128 \<Longrightarrow> set txt \<subseteq> set [0..<n]"
  by (auto simp: ascii_def list_all_iff)

section \<open>Claims\<close>

text \<open>C1: symbols are the 128 values of the alphabet (code points below 128). For every
  corpus over the alphabet and every order \<open>k\<close> with \<open>1 \<le> k < len(corpus)\<close>, for every
  k-gram observed in either model built from that corpus and \<open>k\<close>, \<open>k_freq\<close> returns
  the same count from the tree and from the tables, and for every symbol \<open>s\<close> so does
  \<open>k_follow_freq\<close>; none of these calls fails.\<close>

theorem cross_model_equivalence_ascii:
  assumes "1 \<le> k" and "k < int (length txt)" and "ascii txt" and "s < 128"
    and "tree_model_observed txt k g \<or> tables_model_observed txt k g"
  shows "tree_model_k_freq txt k g = tables_model_k_freq txt k g \<and>
         \<not> isl (tree_model_k_freq txt k g) \<and>
         tree_model_k_follow_freq txt k g s = tables_model_k_follow_freq txt k g s \<and>
         \<not> isl (tree_model_k_follow_freq txt k g s)"
proof -
  from assms(1,2) obtain m where k: "k = int m" and m: "1 \<le> m" "m < length txt"
    by (rule order_nat)
  from observed_occ[OF m] assms(5) have l: "length g = m"
    and o: "occ txt (int m) g [0..<length txt] \<noteq> []" by (auto simp: k)
  show ?thesis
    unfolding k
    using o \<open>s < 128\<close>
    by (simp add: tree_queries_observed[OF m l o]
        tables_model_k_freq_eq[OF \<open>ascii txt\<close>] tables_model_k_follow_freq_eq[OF \<open>ascii txt\<close>])
qed

theorem cross_model_equivalence_ascii_witness:
  "ascii (str ''abcab'') \<and> tables_model_observed (str ''abcab'') 2 (str ''ab'') \<and>
   tree_model_k_freq (str ''abcab'') 2 (str ''ab'') = tables_model_k_freq (str ''abcab'') 2 (str ''ab'') \<and>
   tables_model_k_freq (str ''abcab'') 2 (str ''ab'') = Inr 2 \<and>
   tree_model_k_follow_freq (str ''abcab'') 2 (str ''ab'') 99 =
     tables_model_k_follow_freq (str ''abcab'') 2 (str ''ab'') 99 \<and>
   tables_model_k_follow_freq (str ''abcab'') 2 (str ''ab'') 99 = Inr 1"
proof -
  have a: "ascii (str ''abcab'')" by code_simp
  have o: "tables_model_observed (str ''abcab'') 2 (str ''ab'')" by code_simp
  have l: "(2::int) < int (length (str ''abcab''))" by code_simp
  have f: "tables_model_k_freq (str ''abcab'') 2 (str ''ab'') = Inr 2" by code_simp
  have ff: "tables_model_k_follow_freq (str ''abcab'') 2 (str ''ab'') 99 = Inr 1" by code_simp
  from cross_model_equivalence_ascii[of 2 "str ''abcab''" 99 "str ''ab''"] a o l f ff
  show ?thesis by simp
qed

text \<open>C2: over the alphabet of the 128 symbols, for every corpus, every order \<open>k\<close> with
  \<open>1 \<le> k < len(corpus)\<close> and every k-gram \<open>g\<close> observed during the build, the sum of
  \<open>k_follow_freq(g, s)\<close> over all symbols \<open>s\<close> equals \<open>k_freq(g)\<close>, in the tree and in the
  tables, and no call fails.\<close>

theorem conservation:
  assumes "1 \<le> k" and "k < int (length txt)" and "ascii txt"
    and "tree_model_observed txt k g \<or> tables_model_observed txt k g"
  shows "follow_sum (tree_model_k_follow_freq txt k g) [0..<128] = tree_model_k_freq txt k g \<and>
         \<not> isl (tree_model_k_freq txt k g) \<and>
         follow_sum (tables_model_k_follow_freq txt k g) [0..<128] = tables_model_k_freq txt k g \<and>
         \<not> isl (tables_model_k_freq txt k g)"
proof -
  have d: "distinct [0..<128::nat]" by (rule distinct_upt)
  have s: "set txt \<subseteq> set [0..<128]" by (rule ascii_subset_alphabet[OF assms(3) refl])
  have a: "ascii [0..<128]" by (rule ascii_alphabet) simp
  from conservation_general[OF assms(1,2,4) d s] a show ?thesis by blast
qed

theorem conservation_witness:
  "ascii (str ''abcab'') \<and> tables_model_observed (str ''abcab'') 2 (str ''ab'') \<and>
   follow_sum (tree_model_k_follow_freq (str ''abcab'') 2 (str ''ab'')) [0..<128] = Inr 2 \<and>
   tree_model_k_freq (str ''abcab'') 2 (str ''ab'') = Inr 2 \<and>
   follow_sum (tables_model_k_follow_freq (str ''abcab'') 2 (str ''ab'')) [0..<128] = Inr 2 \<and>
   tables_model_k_freq (str ''abcab'') 2 (str ''ab'') = Inr 2"
proof -
  have o: "tables_model_observed (str ''abcab'') 2 (str ''ab'')" by code_simp
  have a: "ascii (str ''abcab'')" by code_simp
  have l: "(2::int) < int (length (str ''abcab''))" by code_simp
  have f: "tree_model_k_freq (str ''abcab'') 2 (str ''ab'') = Inr 2" by code_simp
  have f': "tables_model_k_freq (str ''abcab'') 2 (str ''ab'') = Inr 2" by code_simp
  from conservation[of 2 "str ''abcab''" "str ''ab''"] o a l have
    "follow_sum (tree_model_k_follow_freq (str ''abcab'') 2 (str ''ab'')) [0..<128] =
       tree_model_k_freq (str ''abcab'') 2 (str ''ab'')"
    "follow_sum (tables_model_k_follow_freq (str ''abcab'') 2 (str ''ab'')) [0..<128] =
       tables_model_k_freq (str ''abcab'') 2 (str ''ab'')"
    by simp_all
  with o a f f' show ?thesis by (simp only:)
qed

text \<open>C3: the tree does not do what the claim says. Over the corpus \<open>ab\<close> with order 1
  the 1-gram \<open>z\<close> was never observed; \<open>MarkovModelTables.k_freq\<close> raises \<open>KeyError\<close> for it,
  and \<open>MarkovModelTree.k_freq\<close> returns 0: it walks only the first \<open>k - 1\<close> symbols and
  reads the last one with \<open>get_letter_count\<close>, which answers 0 for a missing letter.\<close>

theorem tree_k_freq_unseen_returns_zero:
  "\<exists>t T. MarkovModelTree (str ''ab'') 1 = Inr t \<and> MarkovModelTables (str ''ab'') 1 = Inr T \<and>
          str ''z'' \<notin> set (k_grams (str ''ab'') 1) \<and>
          tree_k_freq t (str ''z'') = Inr 0 \<and>
          tables_k_freq T (str ''z'') = Inl KeyError"
proof -
  obtain t where t: "MarkovModelTree (str ''ab'') 1 = Inr t"
    using MarkovModelTree_rep[of "str ''ab''" 1] by auto
  have a: "ascii (str ''ab'')" by code_simp
  obtain T where T: "MarkovModelTables (str ''ab'') 1 = Inr T"
    using MarkovModelTables_ok[OF a, of 1] by auto
  have n: "str ''z'' \<notin> set (k_grams (str ''ab'') 1)" by code_simp
  have "tree_model_k_freq (str ''ab'') 1 (str ''z'') = Inr 0" by code_simp
  with t have f: "tree_k_freq t (str ''z'') = Inr 0" by (simp add: tree_model_k_freq_def)
  have "tables_model_k_freq (str ''ab'') 1 (str ''z'') = Inl KeyError" by code_simp
  with T have f': "tables_k_freq T (str ''z'') = Inl KeyError" by (simp add: tables_model_k_freq_def)
  from t T n f f' show ?thesis by simp
qed

text \<open>C4 (as amended): the program checks none of its parameters. Both models are
  built from the arguments as given, and whenever the trajectory length is at most the
  order (whatever the order, for every corpus of code points below 128, the empty one
  included) the run ends normally and prints \<open>txt[:order]\<close>.\<close>

theorem no_parameter_validation:
  assumes "ascii txt" and "trajectory \<le> order'"
  shows "\<not> isl (MarkovModelTree txt order') \<and> \<not> isl (MarkovModelTables txt order') \<and>
         main discrete order' trajectory txt = Inr (py_slice txt 0 order')"
proof -
  from MarkovModelTree_rep[of "txt" order'] obtain t where t: "MarkovModelTree txt order' = Inr t"
    by auto
  from MarkovModelTables_ok[OF assms(1), of order'] obtain T where
    T: "MarkovModelTables txt order' = Inr T" by auto
  from assms(2) have "nat (trajectory - order') = 0" by simp
  with t T show ?thesis by (simp add: main_def generate_def)
qed

theorem no_parameter_validation_witness:
  "ascii (str ''hello'') \<and> (2::int) \<le> 3 \<and>
   main first_positive 3 2 (str ''hello'') = Inr (str ''hel'')"
proof -
  have a: "ascii (str ''hello'')" by code_simp
  have p: "py_slice (str ''hello'') 0 3 = str ''hel''" by code_simp
  from no_parameter_validation[of "str ''hello''" 2 3 first_positive] a p show ?thesis by simp
qed

text \<open>The claim as stated fails: a trajectory length below the order, an order below 1
  and an empty corpus are all accepted and a trajectory is printed.\<close>

theorem parameter_validation_counterexample:
  "main first_positive 2 1 (str ''ab'') = Inr (str ''ab'') \<and>
   main first_positive 0 1 (str ''ab'') = Inr (str ''a'') \<and>
   main first_positive (- 1) (- 1) (str ''ab'') = Inr (str ''a'') \<and>
   main first_positive 1 1 [] = Inr []"
  by code_simp

text \<open>C5 (as amended): for every sampler that keeps its contract, every order \<open>k \<ge> 1\<close>,
  every trajectory length \<open>t \<ge> k\<close> and every corpus longer than \<open>k\<close>, the generation loop on
  the tree of the corpus ends without an error and its trajectory has exactly \<open>t\<close>
  symbols.\<close>

theorem trajectory_length:
  assumes "valid_sampler discrete" and "1 \<le> k" and "k \<le> t" and "k < int (length txt)"
  shows "\<exists>tj. tree_generate discrete txt k t = Inr tj \<and> int (length tj) = t"
proof -
  from assms(2,4) obtain m where k: "k = int m" and m: "1 \<le> m" "m < length txt"
    by (rule order_nat)
  from MarkovModelTree_rep[of "txt" k] obtain mm where mm: "MarkovModelTree txt (int m) = Inr mm"
    by (auto simp: k)
  from m have pos: "0 < length txt" by (cases "txt") simp_all
  have "window txt (int m) 0 = take m (rotate 0 txt)"
    using m pos by (intro window_rotate) simp_all
  then have st: "py_slice txt 0 (int m) = window txt (int m) 0"
    by (simp add: py_slice_prefix)
  have l: "length (window txt (int m) 0) = m" using m pos by (simp add: length_window)
  from gen_loop_length[OF assms(1) m mm pos, of 0 "nat (t - k)" "window txt (int m) 0"]
  obtain tj where "gen_loop discrete mm 0 (nat (t - k)) (window txt (int m) 0) (window txt (int m) 0) = Inr tj"
    and "length tj = m + nat (t - k)" using l by auto
  with assms(3) mm st show ?thesis
    by (auto simp: tree_generate_def generate_def k)
qed

theorem trajectory_length_witness:
  "valid_sampler first_positive \<and> (2::int) < int (length (str ''abcab'')) \<and>
   tree_generate first_positive (str ''abcab'') 2 7 = Inr (str ''abcabca'') \<and>
   int (length (str ''abcabca'')) = 7"
proof -
  have l: "(2::int) < int (length (str ''abcab''))" by code_simp
  have g: "tree_generate first_positive (str ''abcab'') 2 7 = Inr (str ''abcabca'')" by code_simp
  have l': "int (length (str ''abcabca'')) = 7" by code_simp
  from trajectory_length[OF valid_first_positive, of 2 7 "str ''abcab''"] l g l'
  show ?thesis by (simp add: valid_first_positive)
qed

text \<open>The claim as stated admits a corpus of exactly \<open>k\<close> symbols, and there the loop
  fails: the last window of the tree wraps to an empty prefix, so over \<open>ab\<close> with order 2
  the state \<open>ba\<close> has no path, and over \<open>a\<close> with order 1 the state \<open>a\<close> has no
  successor to sample.\<close>

theorem trajectory_length_counterexample:
  "valid_sampler first_positive \<and> str ''ab'' \<noteq> [] \<and> (1::int) \<le> 2 \<and> (2::int) \<le> 4 \<and> (2::int) \<le> int (length (str ''ab'')) \<and>
   tree_generate first_positive (str ''ab'') 2 4 = Inl AttributeError \<and>
   main first_positive 2 4 (str ''ab'') = Inl AttributeError \<and>
   tree_generate first_positive (str ''a'') 1 2 = Inl IndexError \<and>
   tree_model_successors (str ''a'') 1 (str ''a'') = Inr []"
proof -
  have "str ''ab'' \<noteq> [] \<and> (1::int) \<le> 2 \<and> (2::int) \<le> 4 \<and> (2::int) \<le> int (length (str ''ab'')) \<and>
   tree_generate first_positive (str ''ab'') 2 4 = Inl AttributeError \<and>
   main first_positive 2 4 (str ''ab'') = Inl AttributeError \<and>
   tree_generate first_positive (str ''a'') 1 2 = Inl IndexError \<and>
   tree_model_successors (str ''a'') 1 (str ''a'') = Inr []"
    by code_simp
  with valid_first_positive show ?thesis by simp
qed

text \<open>C6: the construction of both models over the corpus \<open>abcde\<close> with order 3 cuts the
  window of index 3 as \<open>deab\<close>, wrapping to the start of the corpus. The tree holds the
  five windows of \<open>k + 1\<close> symbols as its paths of depth 4, in the order of insertion, and
  the fourth is \<open>deab\<close>; the tables hold the k-gram \<open>dea\<close> as their fourth key, with the
  successor \<open>b\<close> counted once. Every index has a window of \<open>k + 1\<close> symbols, so every
  position has a successor.\<close>

theorem cyclic_window_abcde:
  "\<exists>t T. MarkovModelTree (str ''abcde'') 3 = Inr t \<and>
          MarkovModelTables (str ''abcde'') 3 = Inr T \<and>
          map fst (nodes_at 4 (tree_root t)) =
            [str ''abcd'', str ''bcde'', str ''cdea'', str ''deab'', str ''eabc''] \<and>
          map fst (nodes_at 4 (tree_root t)) ! 3 = str ''deab'' \<and>
          tree_k_follow_freq t (str ''dea'') (of_char CHR ''b'') = Inr 1 \<and>
          map fst (k_gram_count T) =
            [str ''abc'', str ''bcd'', str ''cde'', str ''dea'', str ''eab''] \<and>
          tables_k_follow_freq T (str ''dea'') (of_char CHR ''b'') = Inr 1 \<and>
          window (str ''abcde'') (3 + 1) 3 = str ''deab''"
proof -
  obtain t where t: "MarkovModelTree (str ''abcde'') 3 = Inr t"
    using MarkovModelTree_rep[of "str ''abcde''" 3] by auto
  have a: "ascii (str ''abcde'')" by code_simp
  obtain T where T: "MarkovModelTables (str ''abcde'') 3 = Inr T"
    using MarkovModelTables_ok[OF a, of 3] by auto
  have "(case MarkovModelTree (str ''abcde'') 3 of Inl e \<Rightarrow> [] | Inr t \<Rightarrow> map fst (nodes_at 4 (tree_root t)))
          = [str ''abcd'', str ''bcde'', str ''cdea'', str ''deab'', str ''eabc'']"
    by code_simp
  with t have w: "map fst (nodes_at 4 (tree_root t)) =
            [str ''abcd'', str ''bcde'', str ''cdea'', str ''deab'', str ''eabc'']" by simp
  have "tree_model_k_follow_freq (str ''abcde'') 3 (str ''dea'') (of_char CHR ''b'') = Inr 1"
    by code_simp
  with t have f: "tree_k_follow_freq t (str ''dea'') (of_char CHR ''b'') = Inr 1"
    by (simp add: tree_model_k_follow_freq_def)
  have "(case MarkovModelTables (str ''abcde'') 3 of Inl e \<Rightarrow> [] | Inr T \<Rightarrow> map fst (k_gram_count T))
          = [str ''abc'', str ''bcd'', str ''cde'', str ''dea'', str ''eab'']"
    by code_simp
  with T have g: "map fst (k_gram_count T) =
            [str ''abc'', str ''bcd'', str ''cde'', str ''dea'', str ''eab'']" by simp
  have "tables_model_k_follow_freq (str ''abcde'') 3 (str ''dea'') (of_char CHR ''b'') = Inr 1"
    by code_simp
  with T have f': "tables_k_follow_freq T (str ''dea'') (of_char CHR ''b'') = Inr 1"
    by (simp add: tables_model_k_follow_freq_def)
  have x: "window (str ''abcde'') (3 + 1) 3 = str ''deab''" by code_simp
  from t T w f g f' x show ?thesis by simp
qed

text \<open>C7: over the corpus \<open>abababab\<close> with order 1, the state \<open>a\<close> has the single
  successor \<open>b\<close> with count 4 and the state \<open>b\<close> the single successor \<open>a\<close> with count 4,
  so with trajectory length 6 the generation loop, seeded with \<open>a\<close>, produces \<open>ababab\<close>
  whatever index the sampler draws within its contract.\<close>

theorem abab_deterministic:
  assumes "valid_sampler discrete"
  shows "tree_model_successors (str ''abababab'') 1 (str ''a'') = Inr [(98, 4)] \<and>
         tree_model_successors (str ''abababab'') 1 (str ''b'') = Inr [(97, 4)] \<and>
         tree_generate discrete (str ''abababab'') 1 6 = Inr (str ''ababab'') \<and>
         main discrete 1 6 (str ''abababab'') = Inr (str ''ababab'')"
proof -
  let ?t = "\<lparr>tree_k = 1, tree_root =
      Node None
        [(97, Node (Some 97) [(98, Node (Some 98) [] [])] [(98, 4)]),
         (98, Node (Some 98) [(97, Node (Some 97) [] [])] [(97, 4)])]
        [(97, 4), (98, 4)]\<rparr>"
  have t: "MarkovModelTree (str ''abababab'') 1 = Inr ?t" by code_simp
  have T: "\<not> isl (MarkovModelTables (str ''abababab'') 1)" by code_simp
  have s1: "tree_model_successors (str ''abababab'') 1 (str ''a'') = Inr [(98, 4)]" by code_simp
  have s2: "tree_model_successors (str ''abababab'') 1 (str ''b'') = Inr [(97, 4)]" by code_simp
  have z: "discrete x [4] = 0" for x
    by (rule valid_sampler_single[OF assms]) simp
  have a: "tree_next_char (discrete x) ?t [97] = Inr 98" for x
    by (simp add: tree_next_char_def get_son_def get_letters_count_def z)
  have b: "tree_next_char (discrete x) ?t [98] = Inr 97" for x
    by (simp add: tree_next_char_def get_son_def get_letters_count_def z)
  have sl: "py_slice [c] 1 (int (length [c])) = []" for c :: nat
    using py_slice_tl[of "[c]"] by simp
  have st: "py_slice (str ''abababab'') 0 1 = [97]" by code_simp
  have n: "nat (6 - 1) = Suc (Suc (Suc (Suc (Suc 0))))" by simp
  have res: "str ''ababab'' = [97, 98, 97, 98, 97, 98]" by code_simp
  have g: "generate discrete ?t (str ''abababab'') 1 6 = Inr (str ''ababab'')"
    unfolding generate_def Let_def st n res
    by (simp add: a b sl del: length_Cons list.size)
  from g t have tg: "tree_generate discrete (str ''abababab'') 1 6 = Inr (str ''ababab'')"
    by (simp add: tree_generate_def)
  from T obtain T' where "MarkovModelTables (str ''abababab'') 1 = Inr T'"
    by (cases "MarkovModelTables (str ''abababab'') 1") auto
  with g t have "main discrete 1 6 (str ''abababab'') = Inr (str ''ababab'')"
    by (simp add: main_def)
  with s1 s2 tg show ?thesis by simp
qed

theorem abab_deterministic_witness:
  "valid_sampler first_positive \<and>
   tree_generate first_positive (str ''abababab'') 1 6 = Inr (str ''ababab'') \<and>
   main first_positive 1 6 (str ''abababab'') = Inr (str ''ababab'')"
  using abab_deterministic[OF valid_first_positive] valid_first_positive by simp



text \<open>C9 (as amended): for a corpus without the newline symbol and an order \<open>k \<ge> 0\<close>,
  \<open>MarkovModelTree.to_string\<close> succeeds; the lines of its result are sorted
  lexicographically; they are one empty line and, for every observed k-gram (every path
  of \<open>k\<close> symbols in the tree), exactly one line made of the k-gram, a colon and each
  successor symbol with its count. The result is a function of the model, so repeated
  calls return the same string.\<close>

theorem to_string_lines:
  assumes "10 \<notin> set txt" and "0 \<le> k"
  shows "\<exists>s. tree_model_to_string txt k = Inr s \<and>
           sorted (split_on 10 s) \<and>
           set (split_on 10 s) =
             insert [] {format_entry g items | g items.
                          tree_model_observed txt k g \<and> tree_model_successors txt k g = Inr items} \<and>
           length (split_on 10 s) = Suc (card {g. tree_model_observed txt k g})"
proof -
  let ?W = "tree_windows txt k"
  from MarkovModelTree_rep[of "txt" k] obtain t where
    t: "MarkovModelTree txt k = Inr t" and tk: "tree_k t = k" and r: "rep (tree_root t) ?W"
    by auto
  define d where "d = nat k"
  with assms(2) have k: "k = int d" by simp
  let ?root = "tree_root t"
  let ?ls = "lines_at d ?root []"
  have str: "stringify k ?root [] [] = Inr (concat (map (\<lambda>l. l @ [10]) ?ls))"
    unfolding k using stringify_lines[OF r, of d "[]" "[]"] by simp
  have nodes: "(q, n) \<in> set (nodes_at d ?root) \<longleftrightarrow> length q = d \<and> descend ?root q = Inr n" for q n
    by (rule nodes_at_set[OF r])
  have nonl: "10 \<notin> set l" if "l \<in> set ?ls" for l
  proof -
    from that obtain q n where "(q, n) \<in> set (nodes_at d ?root)"
      and l: "l = format_entry q (letters_count n)"
      by (auto simp: lines_at_def)
    then have "descend ?root q = Inr n" by (simp add: nodes)
    from entry_no_newline[OF assms(1) r this] l show ?thesis by simp
  qed
  then have sp: "split_on 10 (concat (map (\<lambda>l. l @ [10]) ?ls)) = ?ls @ [[]]"
    by (intro split_on_lines) simp
  let ?sorted = "sort (?ls @ [[]])"
  have ts: "tree_model_to_string txt k = Inr (join [10] ?sorted)"
    by (simp add: tree_model_to_string_def t tree_to_string_def tk str sp)
  have ne: "?sorted \<noteq> []"
  proof
    assume "?sorted = []"
    then have "length ?sorted = 0" by simp
    then show False by simp
  qed
  have "\<forall>l \<in> set ?sorted. 10 \<notin> set l" using nonl by auto
  from split_on_join[OF ne this] have rt: "split_on 10 (join [10] ?sorted) = ?sorted" .
  have obs: "tree_model_observed txt k g \<longleftrightarrow> length g = d \<and> (\<exists>n. descend ?root g = Inr n)" for g
    unfolding k by (cases "descend ?root g") (auto simp: tree_model_observed_def t[unfolded k] tk[unfolded k])
  have succs: "tree_model_successors txt k g = Inr items \<longleftrightarrow>
               (\<exists>n. descend ?root g = Inr n \<and> items = letters_count n)" for g items
    unfolding k by (cases "descend ?root g") (auto simp: tree_model_successors_def t[unfolded k] get_letters_count_def)
  have set_ls: "set ?ls = {format_entry g items | g items.
                          tree_model_observed txt k g \<and> tree_model_successors txt k g = Inr items}"
    (is "?L = ?R")
  proof (rule set_eqI)
    fix l
    have "l \<in> ?L \<longleftrightarrow> (\<exists>q n. (q, n) \<in> set (nodes_at d ?root) \<and> l = format_entry q (letters_count n))"
      by (auto simp: lines_at_def)
    also have "\<dots> \<longleftrightarrow> (\<exists>q n. length q = d \<and> descend ?root q = Inr n \<and> l = format_entry q (letters_count n))"
      by (simp add: nodes)
    also have "\<dots> \<longleftrightarrow> l \<in> ?R"
      unfolding mem_Collect_eq obs succs by blast
    finally show "l \<in> ?L \<longleftrightarrow> l \<in> ?R" .
  qed
  have "{g. tree_model_observed txt k g} = set (map fst (nodes_at d ?root))"
  proof (rule set_eqI)
    fix g
    have "g \<in> set (map fst (nodes_at d ?root)) \<longleftrightarrow> (\<exists>n. (g, n) \<in> set (nodes_at d ?root))"
      by force
    then show "g \<in> {g. tree_model_observed txt k g} \<longleftrightarrow> g \<in> set (map fst (nodes_at d ?root))"
      by (simp only: mem_Collect_eq obs nodes) blast
  qed
  then have "card {g. tree_model_observed txt k g} = length (map fst (nodes_at d ?root))"
    using distinct_card[OF nodes_at_distinct[OF r, of d]] by simp
  then have len: "length ?ls = card {g. tree_model_observed txt k g}"
    by (simp add: lines_at_def)
  have "sorted ?sorted" by simp
  moreover have "set ?sorted = insert [] (set ?ls)" by simp
  moreover have "length ?sorted = Suc (length ?ls)" by simp
  ultimately show ?thesis
    unfolding ts using rt set_ls len by (intro exI[of _ "join [10] ?sorted"]) (simp only:)
qed

theorem to_string_lines_witness:
  "10 \<notin> set (str ''abcab'') \<and>
   tree_model_to_string (str ''abcab'') 2 =
     Inr (join [10] [[], str ''ab: c 1 a 1'', str ''ba: b 1'', str ''bc: a 1'', str ''ca: b 1'']) \<and>
   (\<exists>s. tree_model_to_string (str ''abcab'') 2 = Inr s \<and> sorted (split_on 10 s) \<and>
        length (split_on 10 s) = Suc (card {g. tree_model_observed (str ''abcab'') 2 g}))"
proof -
  have n: "10 \<notin> set (str ''abcab'')" by code_simp
  have e: "tree_model_to_string (str ''abcab'') 2 =
     Inr (join [10] [[], str ''ab: c 1 a 1'', str ''ba: b 1'', str ''bc: a 1'', str ''ca: b 1''])"
    by code_simp
  from to_string_lines[OF n, of 2] n e show ?thesis by auto
qed

text \<open>The claim as stated fails for a corpus that contains the newline symbol: the entry
  of a k-gram that contains it, or is followed by it, is cut into several lines by
  \<open>split\<close> and scattered by the sort. Over the corpus of \<open>a\<close> and a newline with order 1,
  the entry of the k-gram \<open>a\<close> is no line of the result.\<close>

theorem to_string_lines_counterexample:
  "tree_model_observed [97, 10] 1 [97] \<and>
   tree_model_successors [97, 10] 1 [97] = Inr [(10, 1)] \<and>
   tree_model_to_string [97, 10] 1 = Inr [10, 10, 32, 49, 10, 58, 32, 97, 32, 49, 10, 97, 58, 32] \<and>
   split_on 10 [10, 10, 32, 49, 10, 58, 32, 97, 32, 49, 10, 97, 58, 32] =
     [[], [], str '' 1'', str '': a 1'', str ''a: ''] \<and>
   format_entry [97] [(10, 1)] = [97, 58, 32, 10, 32, 49] \<and>
   format_entry [97] [(10, 1)] \<notin>
     set (split_on 10 [10, 10, 32, 49, 10, 58, 32, 97, 32, 49, 10, 97, 58, 32])"
  by code_simp

text \<open>C10: a corpus with a symbol of code point 128 or more makes the construction of
  \<open>MarkovModelTables\<close> fail with an index out of range into the 128-entry successor row,
  whatever the order; the construction of \<open>MarkovModelTree\<close> always succeeds; and the
  tables are built exactly when every corpus symbol has a code point below 128.\<close>

theorem tables_build_total_iff_ascii:
  "(if ascii txt then \<not> isl (MarkovModelTables txt k)
    else MarkovModelTables txt k = Inl IndexError) \<and> \<not> isl (MarkovModelTree txt k)"
  using MarkovModelTables_ok[of "txt" k] MarkovModelTables_fail[of "txt" k] MarkovModelTree_rep[of "txt" k]
  by auto

theorem tables_build_total_iff_ascii_witness:
  "\<not> ascii [97, 200] \<and> MarkovModelTables [97, 200] 1 = Inl IndexError \<and> \<not> isl (MarkovModelTree [97, 200] 1)"
  using tables_build_total_iff_ascii[of "[97, 200]" 1] by (simp add: ascii_def)


end
